theory Spec2Isabelle
  imports Main
begin

section \<open>Strings\<close>

text \<open>
  A JavaScript string is a sequence of UTF-16 code units.  The code below never does
  arithmetic on a code unit, it only compares it with fixed characters, so a code unit is
  a natural number and a string a list of them.  \<open>str\<close> turns an ASCII literal into
  such a string.
\<close>

type_synonym jsstring = "nat list"

definition str :: "string \<Rightarrow> jsstring" where
  "str s = map of_char s"

abbreviation dq :: nat where "dq \<equiv> 34"
abbreviation bs :: nat where "bs \<equiv> 92"
abbreviation lbrace :: nat where "lbrace \<equiv> 123"
abbreviation rbrace :: nat where "rbrace \<equiv> 125"

text \<open>\<^verbatim>\<open>s.substring(a, b)\<close>: both arguments are clamped to the length and swapped when
  \<open>a > b\<close>; \<^verbatim>\<open>s.substring(a)\<close> is \<open>drop a s\<close>.\<close>

definition substring :: "jsstring \<Rightarrow> nat \<Rightarrow> nat \<Rightarrow> jsstring" where
  "substring s a b =
     (let a' = min a (length s); b' = min b (length s)
      in take (max a' b' - min a' b') (drop (min a' b') s))"

text \<open>\<^verbatim>\<open>s.indexOf(pat, from)\<close>: the least position \<open>k \<ge> from\<close> at which \<open>pat\<close> starts,
  or \<open>-1\<close>.\<close>

fun index_from :: "jsstring \<Rightarrow> jsstring \<Rightarrow> nat \<Rightarrow> int" where
  "index_from pat [] k = (if pat = [] then int k else -1)"
| "index_from pat (c # cs) k =
     (if take (length pat) (c # cs) = pat then int k else index_from pat cs (Suc k))"

definition indexOf :: "jsstring \<Rightarrow> jsstring \<Rightarrow> nat \<Rightarrow> int" where
  "indexOf s pat from = (let f = min from (length s) in index_from pat (drop f s) f)"

text \<open>\<^verbatim>\<open>s.trim()\<close> removes ECMAScript white space and line terminators at both ends.\<close>

definition is_js_space :: "nat \<Rightarrow> bool" where
  "is_js_space c \<longleftrightarrow>
     c = 9 \<or> c = 10 \<or> c = 11 \<or> c = 12 \<or> c = 13 \<or> c = 32 \<or> c = 160 \<or> c = 5760
     \<or> (8192 \<le> c \<and> c \<le> 8202)
     \<or> c = 8232 \<or> c = 8233 \<or> c = 8239 \<or> c = 8287 \<or> c = 12288 \<or> c = 65279"

definition trim :: "jsstring \<Rightarrow> jsstring" where
  "trim s = rev (dropWhile is_js_space (rev (dropWhile is_js_space s)))"

section \<open>JSON.parse\<close>

text \<open>
  \<^verbatim>\<open>JSON.parse\<close> is the built-in of the JavaScript runtime.  It is modelled after the JSON
  grammar it implements: white space is space, tab, line feed and carriage return; a string
  may not contain a raw code unit below 0x20, a raw quote or a lone backslash; a duplicate
  key overwrites the earlier value.  A number is kept as its lexeme.  The recursion of the
  grammar is bounded by fuel, and every call consumes a character before it recurses, so
  the length of the text is enough fuel.
\<close>

datatype json =
    JNull
  | JBool bool
  | JNumber jsstring
  | JString jsstring
  | JArray "json list"
  | JObject "(jsstring \<times> json) list"

definition is_json_ws :: "nat \<Rightarrow> bool" where
  "is_json_ws c \<longleftrightarrow> c = 32 \<or> c = 9 \<or> c = 10 \<or> c = 13"

definition skip_ws :: "jsstring \<Rightarrow> jsstring" where
  "skip_ws s = dropWhile is_json_ws s"

definition hexval :: "nat \<Rightarrow> nat option" where
  "hexval c =
     (if 48 \<le> c \<and> c \<le> 57 then Some (c - 48)
      else if 97 \<le> c \<and> c \<le> 102 then Some (c - 87)
      else if 65 \<le> c \<and> c \<le> 70 then Some (c - 55)
      else None)"

definition unescape_char :: "nat \<Rightarrow> nat option" where
  "unescape_char e =
     (if e = dq then Some dq
      else if e = bs then Some bs
      else if e = 47 then Some 47
      else if e = 98 then Some 8
      else if e = 102 then Some 12
      else if e = 110 then Some 10
      else if e = 114 then Some 13
      else if e = 116 then Some 9
      else None)"

definition hex4 :: "jsstring \<Rightarrow> (nat \<times> jsstring) option" where
  "hex4 s =
     (case s of
        h1 # h2 # h3 # h4 # r \<Rightarrow>
          (case (hexval h1, hexval h2, hexval h3, hexval h4) of
             (Some a, Some b, Some c, Some d) \<Rightarrow> Some (((a * 16 + b) * 16 + c) * 16 + d, r)
           | _ \<Rightarrow> None)
      | _ \<Rightarrow> None)"

text \<open>The characters of a string after its opening quote: the decoded string and the
  text after the closing quote.\<close>

fun parse_string_chars :: "jsstring \<Rightarrow> (jsstring \<times> jsstring) option" where
  "parse_string_chars [] = None"
| "parse_string_chars [c] = (if c = dq then Some ([], []) else None)"
| "parse_string_chars (c # e # cs) =
     (if c = dq then Some ([], e # cs)
      else if c = bs then
        (if e = 117 then
           (case cs of
              h1 # h2 # h3 # h4 # r \<Rightarrow>
                (case hex4 cs of
                   None \<Rightarrow> None
                 | Some (u, _) \<Rightarrow>
                     (case parse_string_chars r of
                        None \<Rightarrow> None
                      | Some (v, rest) \<Rightarrow> Some (u # v, rest)))
            | _ \<Rightarrow> None)
         else
           (case unescape_char e of
              None \<Rightarrow> None
            | Some ch \<Rightarrow>
                (case parse_string_chars cs of
                   None \<Rightarrow> None
                 | Some (v, rest) \<Rightarrow> Some (ch # v, rest))))
      else if c < 32 then None
      else
        (case parse_string_chars (e # cs) of
           None \<Rightarrow> None
         | Some (v, rest) \<Rightarrow> Some (c # v, rest)))"

definition is_digit :: "nat \<Rightarrow> bool" where
  "is_digit c \<longleftrightarrow> 48 \<le> c \<and> c \<le> 57"

definition parse_digits :: "jsstring \<Rightarrow> (jsstring \<times> jsstring) option" where
  "parse_digits s =
     (if takeWhile is_digit s = [] then None
      else Some (takeWhile is_digit s, dropWhile is_digit s))"

definition parse_int_part :: "jsstring \<Rightarrow> (jsstring \<times> jsstring) option" where
  "parse_int_part s =
     (case s of
        [] \<Rightarrow> None
      | c # cs \<Rightarrow> if c = 48 then Some ([48], cs) else parse_digits s)"

definition parse_frac :: "jsstring \<Rightarrow> (jsstring \<times> jsstring) option" where
  "parse_frac s =
     (case s of
        [] \<Rightarrow> Some ([], [])
      | c # cs \<Rightarrow>
          if c = 46 then
            (case parse_digits cs of None \<Rightarrow> None | Some (ds, r) \<Rightarrow> Some (c # ds, r))
          else Some ([], s))"

definition parse_exp :: "jsstring \<Rightarrow> (jsstring \<times> jsstring) option" where
  "parse_exp s =
     (case s of
        [] \<Rightarrow> Some ([], [])
      | c # cs \<Rightarrow>
          if c = 101 \<or> c = 69 then
            (case cs of
               [] \<Rightarrow> None
             | g # gs \<Rightarrow>
                 if g = 43 \<or> g = 45 then
                   (case parse_digits gs of
                      None \<Rightarrow> None
                    | Some (ds, r) \<Rightarrow> Some (c # g # ds, r))
                 else
                   (case parse_digits cs of
                      None \<Rightarrow> None
                    | Some (ds, r) \<Rightarrow> Some (c # ds, r)))
          else Some ([], s))"

definition parse_number :: "jsstring \<Rightarrow> (json \<times> jsstring) option" where
  "parse_number s =
     (let (sign, s1) = (case s of [] \<Rightarrow> ([], []) | c # cs \<Rightarrow> if c = 45 then ([c], cs) else ([], s))
      in case parse_int_part s1 of
           None \<Rightarrow> None
         | Some (i, s2) \<Rightarrow>
             (case parse_frac s2 of
                None \<Rightarrow> None
              | Some (f, s3) \<Rightarrow>
                  (case parse_exp s3 of
                     None \<Rightarrow> None
                   | Some (e, s4) \<Rightarrow> Some (JNumber (sign @ i @ f @ e), s4))))"

definition parse_literal :: "jsstring \<Rightarrow> (json \<times> jsstring) option" where
  "parse_literal s =
     (if take 4 s = str ''true'' then Some (JBool True, drop 4 s)
      else if take 5 s = str ''false'' then Some (JBool False, drop 5 s)
      else if take 4 s = str ''null'' then Some (JNull, drop 4 s)
      else parse_number s)"

text \<open>Storing a property: an existing key keeps its place and takes the new value.\<close>

fun obj_put :: "(jsstring \<times> json) list \<Rightarrow> jsstring \<Rightarrow> json \<Rightarrow> (jsstring \<times> json) list" where
  "obj_put [] k v = [(k, v)]"
| "obj_put ((k', v') # kvs) k v =
     (if k' = k then (k', v) # kvs else (k', v') # obj_put kvs k v)"

fun parse_value :: "nat \<Rightarrow> jsstring \<Rightarrow> (json \<times> jsstring) option"
  and parse_elements :: "nat \<Rightarrow> jsstring \<Rightarrow> json list \<Rightarrow> (json \<times> jsstring) option"
  and parse_members ::
    "nat \<Rightarrow> jsstring \<Rightarrow> (jsstring \<times> json) list \<Rightarrow> (json \<times> jsstring) option"
where
  "parse_value 0 s = None"
| "parse_value (Suc n) s =
     (case skip_ws s of
        [] \<Rightarrow> None
      | c # cs \<Rightarrow>
          if c = lbrace then
            (case skip_ws cs of
               [] \<Rightarrow> None
             | d # ds \<Rightarrow> if d = rbrace then Some (JObject [], ds) else parse_members n (d # ds) [])
          else if c = 91 then
            (case skip_ws cs of
               [] \<Rightarrow> None
             | d # ds \<Rightarrow> if d = 93 then Some (JArray [], ds) else parse_elements n (d # ds) [])
          else if c = dq then
            (case parse_string_chars cs of
               None \<Rightarrow> None
             | Some (v, r) \<Rightarrow> Some (JString v, r))
          else parse_literal (c # cs))"
| "parse_elements 0 s acc = None"
| "parse_elements (Suc n) s acc =
     (case parse_value n s of
        None \<Rightarrow> None
      | Some (v, r) \<Rightarrow>
          (case skip_ws r of
             [] \<Rightarrow> None
           | c # cs \<Rightarrow>
               if c = 44 then parse_elements n cs (acc @ [v])
               else if c = 93 then Some (JArray (acc @ [v]), cs)
               else None))"
| "parse_members 0 s acc = None"
| "parse_members (Suc n) s acc =
     (case skip_ws s of
        [] \<Rightarrow> None
      | c # cs \<Rightarrow>
          if c = dq then
            (case parse_string_chars cs of
               None \<Rightarrow> None
             | Some (k, r) \<Rightarrow>
                 (case skip_ws r of
                    [] \<Rightarrow> None
                  | c2 # r2 \<Rightarrow>
                      if c2 = 58 then
                        (case parse_value n r2 of
                           None \<Rightarrow> None
                         | Some (v, r3) \<Rightarrow>
                             (case skip_ws r3 of
                                [] \<Rightarrow> None
                              | c3 # r4 \<Rightarrow>
                                  if c3 = 44 then parse_members n r4 (obj_put acc k v)
                                  else if c3 = rbrace then Some (JObject (obj_put acc k v), r4)
                                  else None))
                      else None))
          else None)"

definition json_parse :: "jsstring \<Rightarrow> json option" where
  "json_parse s =
     (case parse_value (Suc (length s)) s of
        None \<Rightarrow> None
      | Some (v, r) \<Rightarrow> if skip_ws r = [] then Some v else None)"

section \<open>The decoder: \<^verbatim>\<open>processStream\<close>\<close>

text \<open>
  The callbacks of \<^verbatim>\<open>useStreamingResponse\<close> are the events of the decoder:
  \<^verbatim>\<open>onStreamStart\<close>, \<^verbatim>\<open>onStreamChunk\<close> (a delta), \<^verbatim>\<open>onStreamEnd\<close> (the complete parsed
  object) and \<^verbatim>\<open>onError\<close>.  The errors are the messages thrown in the source:
  \<^item> \<open>TransportMissing\<close>: "Response body is missing";
  \<^item> \<open>UnterminatedValue\<close>: "Stream ended unexpectedly while parsing response value.";
  \<^item> \<open>InvalidFinalJson\<close>: "Stream ended with incomplete or invalid JSON object.";
  \<^item> \<open>NoContent\<close>: "Stream ended with no content.";
  \<^item> \<open>ExceededMaxLength\<close>: "Stream exceeded max length without valid JSON.".
\<close>

datatype error =
    TransportMissing
  | UnterminatedValue
  | InvalidFinalJson
  | NoContent
  | ExceededMaxLength

datatype event =
    StreamStart
  | Delta jsstring
  | Complete json
  | Error error

text \<open>The variables of \<^verbatim>\<open>processStream\<close> that live across chunks.  \<^verbatim>\<open>braceLevel\<close>,
  \<^verbatim>\<open>inString\<close> and \<^verbatim>\<open>escaped\<close> are reset before each use and are local to the
  completion check below.\<close>

record decoder_state =
  fullStreamContent :: jsstring
  isInsideResponseValue :: bool
  responseValueStartIndex :: int
  responseValueSentSoFar :: jsstring

definition initial_state :: decoder_state where
  "initial_state =
     \<lparr> fullStreamContent = [], isInsideResponseValue = False,
       responseValueStartIndex = -1, responseValueSentSoFar = [] \<rparr>"

definition marker :: jsstring where
  \<open>marker = str ''"response": "''\<close>

definition max_length :: nat where
  "max_length = 50000"

text \<open>The inner loop of the value scan counts the backslashes before position
  \<open>searchStart\<close>, going down from \<open>k = searchStart - 1\<close> while \<open>k \<ge> responseValueStartIndex\<close>.
  The model carries \<open>j = k + 1\<close>, which stays a natural number when the loop runs off the
  front of the buffer.\<close>

fun backslashCount :: "jsstring \<Rightarrow> nat \<Rightarrow> nat \<Rightarrow> nat" where
  "backslashCount buf start 0 = 0"
| "backslashCount buf start (Suc k) =
     (if Suc k > start \<and> k < length buf \<and> buf ! k = bs
      then Suc (backslashCount buf start k) else 0)"

text \<open>The outer loop: the first position from \<open>searchStart\<close> on that holds a quote with an
  even number of backslashes before it; \<open>None\<close> when the loop reaches the end of the
  buffer (\<open>foundEndQuote\<close> stays false).\<close>

function findEndQuote :: "jsstring \<Rightarrow> nat \<Rightarrow> nat \<Rightarrow> nat option" where
  "findEndQuote buf start searchStart =
     (if searchStart < length buf then
        (if buf ! searchStart = dq \<and> backslashCount buf start searchStart mod 2 = 0
         then Some searchStart
         else findEndQuote buf start (Suc searchStart))
      else None)"
  by pat_completeness auto
termination
  by (relation "measure (\<lambda>(buf, start, searchStart). length buf - searchStart)") auto

declare findEndQuote.simps [simp del]

text \<open>The key search of one chunk (source lines 78 to 86).\<close>

definition find_key :: "decoder_state \<Rightarrow> decoder_state" where
  "find_key st =
     (if \<not> isInsideResponseValue st then
        (let keyIndex = indexOf (fullStreamContent st) marker
                 (if responseValueStartIndex st > -1 then nat (responseValueStartIndex st) else 0)
         in if keyIndex \<noteq> -1
            then st\<lparr> isInsideResponseValue := True,
                    responseValueStartIndex := keyIndex + int (length marker) \<rparr>
            else st)
      else st)"

text \<open>The value the scan computes (\<^verbatim>\<open>currentResponseValue\<close>).\<close>

definition current_value :: "jsstring \<Rightarrow> nat \<Rightarrow> jsstring" where
  "current_value buf start =
     (case findEndQuote buf start start of
        Some e \<Rightarrow> substring buf start e
      | None \<Rightarrow> drop start buf)"

text \<open>Streaming the value (source lines 88 to 129): the new part of the value is sent,
  and a found end quote leaves the value.\<close>

definition stream_value :: "decoder_state \<Rightarrow> decoder_state \<times> event list" where
  "stream_value st =
     (if isInsideResponseValue st then
        (let buf = fullStreamContent st;
             start = nat (responseValueStartIndex st);
             found = findEndQuote buf start start;
             currentResponseValue = current_value buf start;
             sent = responseValueSentSoFar st;
             longer = length currentResponseValue > length sent;
             evs = (if longer then [Delta (drop (length sent) currentResponseValue)] else []);
             st1 = (if longer then st\<lparr> responseValueSentSoFar := currentResponseValue \<rparr> else st);
             st2 = (case found of
                      Some e \<Rightarrow> st1\<lparr> isInsideResponseValue := False,
                                    responseValueStartIndex := int e + 1 \<rparr>
                    | None \<Rightarrow> st1)
         in (st2, evs))
      else (st, []))"

text \<open>The completion check (source lines 132 to 165): brace level, string state and
  escape flag over the whole buffer.\<close>

definition completion_step :: "int \<times> bool \<times> bool \<Rightarrow> nat \<Rightarrow> int \<times> bool \<times> bool" where
  "completion_step s c =
     (case s of (braceLevel, inString, escaped) \<Rightarrow>
        (let inString' = (if c = dq \<and> \<not> escaped then \<not> inString else inString);
             braceLevel' =
               (if \<not> inString' then
                  (if c = lbrace then braceLevel + 1
                   else if c = rbrace then braceLevel - 1 else braceLevel)
                else braceLevel)
         in (braceLevel', inString', c = bs \<and> \<not> escaped)))"

definition completion_scan :: "jsstring \<Rightarrow> int \<times> bool \<times> bool" where
  "completion_scan buf = foldl completion_step (0, False, False) buf"

definition looks_complete :: "jsstring \<Rightarrow> bool" where
  "looks_complete buf =
     (case completion_scan buf of
        (braceLevel, inString, escaped) \<Rightarrow>
          braceLevel = 0 \<and> \<not> inString \<and> lbrace \<in> set buf \<and> rbrace \<in> set buf)"

text \<open>\<^verbatim>\<open>JSON.parse\<close> followed by the read of \<^verbatim>\<open>parsedJson.response\<close>, which throws on
  \<^verbatim>\<open>null\<close>: \<open>None\<close> when either throws.\<close>

definition parse_and_check :: "jsstring \<Rightarrow> json option" where
  "parse_and_check buf =
     (case json_parse buf of
        None \<Rightarrow> None
      | Some v \<Rightarrow> if v = JNull then None else Some v)"

text \<open>The events of the completion check and whether the loop is left.\<close>

definition completion_check :: "jsstring \<Rightarrow> event list \<times> bool" where
  "completion_check buf =
     (if looks_complete buf then
        (case parse_and_check buf of
           Some v \<Rightarrow> ([Complete v], True)
         | None \<Rightarrow> if length buf > max_length then ([Error ExceededMaxLength], True)
                   else ([], False))
      else ([], False))"

text \<open>One iteration of \<^verbatim>\<open>parseLoop\<close> for a chunk that was read: the new state, the
  events, and whether the loop is left.\<close>

definition consume :: "decoder_state \<Rightarrow> jsstring \<Rightarrow> decoder_state \<times> event list \<times> bool" where
  "consume st chunk =
     (let st1 = st\<lparr> fullStreamContent := fullStreamContent st @ chunk \<rparr>;
          (st2, evs) = stream_value (find_key st1);
          (cevs, stop) = completion_check (fullStreamContent st2)
      in (st2, evs @ cevs, stop))"

text \<open>The iteration in which the reader reports \<^verbatim>\<open>done\<close> (source lines 48 to 72).\<close>

definition on_done :: "decoder_state \<Rightarrow> event list" where
  "on_done st =
     (if isInsideResponseValue st then [Error UnterminatedValue]
      else if trim (fullStreamContent st) \<noteq> [] then
        (case parse_and_check (fullStreamContent st) of
           Some v \<Rightarrow> [Complete v]
         | None \<Rightarrow> [Error InvalidFinalJson])
      else [Error NoContent])"

fun parseLoop :: "decoder_state \<Rightarrow> jsstring list \<Rightarrow> event list" where
  "parseLoop st [] = on_done st"
| "parseLoop st (chunk # chunks) =
     (case consume st chunk of
        (st', evs, stop) \<Rightarrow> if stop then evs else evs @ parseLoop st' chunks)"

text \<open>\<^verbatim>\<open>processStream\<close> on a response whose body, when there is one, delivers the given
  decoded chunks and then ends.\<close>

definition processStream :: "jsstring list option \<Rightarrow> event list" where
  "processStream body =
     (case body of
        None \<Rightarrow> [Error TransportMissing]
      | Some chunks \<Rightarrow> StreamStart # parseLoop initial_state chunks)"

text \<open>The state after a list of chunks, as long as the loop is not left.\<close>

definition consume_all :: "decoder_state \<Rightarrow> jsstring list \<Rightarrow> decoder_state" where
  "consume_all st chunks = foldl (\<lambda>s c. fst (consume s c)) st chunks"

section \<open>The encoder: the handler of \<^verbatim>\<open>POST /session/continue\<close>\<close>

text \<open>\<^verbatim>\<open>s.replace(/c/g, rep)\<close> for a single character \<open>c\<close> and a replacement without
  \<^verbatim>\<open>$\<close> patterns.\<close>

definition replace_all :: "nat \<Rightarrow> jsstring \<Rightarrow> jsstring \<Rightarrow> jsstring" where
  "replace_all c rep s = concat (map (\<lambda>x. if x = c then rep else [x]) s)"

definition escapedContent :: "jsstring \<Rightarrow> jsstring" where
  "escapedContent newContent =
     replace_all 9 [bs, 116]
       (replace_all 13 [bs, 114]
          (replace_all 10 [bs, 110]
             (replace_all dq [bs, dq]
                (replace_all bs [bs, bs] newContent))))"

text \<open>The \<^verbatim>\<open>for await\<close> loop: what is written for each fragment of the response
  stream.\<close>

fun write_fragments :: "jsstring \<Rightarrow> jsstring \<Rightarrow> jsstring list \<Rightarrow> jsstring list" where
  "write_fragments fullResponse sentResponse [] = []"
| "write_fragments fullResponse sentResponse (chunk # rest) =
     (let fullResponse' = fullResponse @ chunk;
          newContent = drop (length sentResponse) fullResponse'
      in escapedContent newContent # write_fragments fullResponse' fullResponse' rest)"

definition stream_open :: jsstring where
  \<open>stream_open = str ''{"response": "''\<close>

definition stream_close :: jsstring where
  \<open>stream_close =
     str ''", "currentCategory": null, "currentWord": null, "currentWordProgress": null, "exercises": null}''\<close>

text \<open>The response stream ends normally or throws; the handler writes the same closing
  text in both cases.\<close>

datatype signal = Done | Failed

definition session_continue_writes :: "jsstring list \<Rightarrow> signal \<Rightarrow> jsstring list" where
  "session_continue_writes fragments sig =
     [stream_open] @ write_fragments [] [] fragments @
     (case sig of Done \<Rightarrow> [stream_close] | Failed \<Rightarrow> [stream_close])"

section \<open>Notions used to state the properties\<close>

text \<open>The number of consecutive backslashes immediately before position \<open>i\<close> of a
  buffer.\<close>

definition backslashes_before :: "jsstring \<Rightarrow> nat \<Rightarrow> nat" where
  "backslashes_before buf i = length (takeWhile (\<lambda>c. c = bs) (rev (take i buf)))"

text \<open>A single left-to-right pass with an escape flag: the offset of the first quote
  that is not escaped, if there is one, and the flag at the end of a text.\<close>

fun first_unescaped_quote :: "bool \<Rightarrow> jsstring \<Rightarrow> nat option" where
  "first_unescaped_quote esc [] = None"
| "first_unescaped_quote esc (c # cs) =
     (if c = dq \<and> \<not> esc then Some 0
      else map_option Suc (first_unescaped_quote (c = bs \<and> \<not> esc) cs))"

definition escape_flag :: "bool \<Rightarrow> jsstring \<Rightarrow> bool" where
  "escape_flag esc xs = foldl (\<lambda>e c. c = bs \<and> \<not> e) esc xs"

text \<open>A list of chunks is read to the end when no iteration leaves the loop before the
  reader reports \<^verbatim>\<open>done\<close>.\<close>

fun never_stops :: "decoder_state \<Rightarrow> jsstring list \<Rightarrow> bool" where
  "never_stops st [] = True"
| "never_stops st (chunk # chunks) =
     (case consume st chunk of (st', evs, stop) \<Rightarrow> \<not> stop \<and> never_stops st' chunks)"

text \<open>The texts of the deltas among some events, in order, and the object of the first
  complete event.\<close>

fun deltas_of :: "event list \<Rightarrow> jsstring list" where
  "deltas_of [] = []"
| "deltas_of (Delta d # evs) = d # deltas_of evs"
| "deltas_of (e # evs) = deltas_of evs"

fun final_object :: "event list \<Rightarrow> json option" where
  "final_object [] = None"
| "final_object (Complete v # evs) = Some v"
| "final_object (e # evs) = final_object evs"

text \<open>The start of the value after the key search of an iteration over the buffer
  \<open>buf\<close>: the old start when the decoder is inside the value, the position after the
  marker when the search finds it, \<open>None\<close> when it does not.\<close>

definition key_search :: "decoder_state \<Rightarrow> jsstring \<Rightarrow> nat option" where
  "key_search st buf =
     (if isInsideResponseValue st then Some (nat (responseValueStartIndex st))
      else
        (let keyIndex = indexOf buf marker
                 (if responseValueStartIndex st > -1 then nat (responseValueStartIndex st) else 0)
         in if keyIndex = -1 then None else Some (nat keyIndex + length marker)))"

text \<open>A pattern occurs at position \<open>j\<close> of a text.\<close>

definition occurs_at :: "jsstring \<Rightarrow> jsstring \<Rightarrow> nat \<Rightarrow> bool" where
  "occurs_at pat s j \<longleftrightarrow> take (length pat) (drop j s) = pat"

text \<open>The events of all iterations over a list of chunks, whether or not an iteration
  leaves the loop: the events of a run that is left in iteration \<open>n\<close> are those of the
  first \<open>n\<close> chunks.\<close>

fun step_events :: "decoder_state \<Rightarrow> jsstring list \<Rightarrow> event list" where
  "step_events st [] = []"
| "step_events st (chunk # chunks) =
     (case consume st chunk of (st', evs, stop) \<Rightarrow> evs @ step_events st' chunks)"

text \<open>The field value known from a buffer: the text from the first marker up to its
  closing quote, or up to the end of the buffer while the quote has not arrived.\<close>

definition known_value :: "jsstring \<Rightarrow> jsstring" where
  "known_value buf =
     (let k = indexOf buf marker 0
      in if k = -1 then [] else current_value buf (nat k + length marker))"

text \<open>The marker occurs once as far as the decoder is concerned: the text after the
  closing quote of the first value does not contain it.\<close>

definition single_marker :: "jsstring \<Rightarrow> bool" where
  "single_marker buf =
     (let k = indexOf buf marker 0
      in k = -1 \<or>
         (case findEndQuote buf (nat k + length marker) (nat k + length marker) of
            None \<Rightarrow> True
          | Some e \<Rightarrow> indexOf buf marker (Suc e) = -1))"

text \<open>The state the decoder is in after it has read a buffer with a single marker, in
  any chunks.\<close>

definition view :: "jsstring \<Rightarrow> decoder_state" where
  "view buf =
     (let k = indexOf buf marker 0
      in if k = -1 then
           \<lparr> fullStreamContent = buf, isInsideResponseValue = False,
             responseValueStartIndex = -1, responseValueSentSoFar = [] \<rparr>
         else
           (let vs = nat k + length marker
            in case findEndQuote buf vs vs of
                 None \<Rightarrow>
                   \<lparr> fullStreamContent = buf, isInsideResponseValue = True,
                     responseValueStartIndex = int vs, responseValueSentSoFar = drop vs buf \<rparr>
               | Some e \<Rightarrow>
                   \<lparr> fullStreamContent = buf, isInsideResponseValue = False,
                     responseValueStartIndex = int e + 1,
                     responseValueSentSoFar = substring buf vs e \<rparr>))"

text \<open>The escape of one character, as the specification words it: backslash, quote,
  newline, carriage return and tab become two-character escapes, every other character is
  written as it is.\<close>

definition escape_char :: "nat \<Rightarrow> jsstring" where
  "escape_char c =
     (if c = bs then [bs, bs]
      else if c = dq then [bs, dq]
      else if c = 10 then [bs, 110]
      else if c = 13 then [bs, 114]
      else if c = 9 then [bs, 116]
      else [c])"

text \<open>A character that may stand in a fragment without breaking the JSON text: anything
  but the control characters that the encoder does not escape.\<close>

definition json_safe :: "nat \<Rightarrow> bool" where
  "json_safe c \<longleftrightarrow> 32 \<le> c \<or> c = 9 \<or> c = 10 \<or> c = 13"

text \<open>The object that the encoder's text denotes for a response text \<open>v\<close>.\<close>

definition wire_object :: "jsstring \<Rightarrow> json" where
  "wire_object v =
     JObject [(str ''response'', JString v), (str ''currentCategory'', JNull),
              (str ''currentWord'', JNull), (str ''currentWordProgress'', JNull),
              (str ''exercises'', JNull)]"

text \<open>The closing text after its first character, the quote that ends the value.\<close>

definition stream_tail :: jsstring where
  "stream_tail = tl stream_close"

section \<open>The shape of a JSON text\<close>

text \<open>
  How the quotes of a text pair up, read from left to right: outside a string, just after
  the quote that closes one, inside one, after a backslash inside one.  A colon outside a
  string, and the letter \<open>r\<close> right after a closing quote, break the reading: a text
  without objects has neither.
\<close>

datatype lex = Outside | AfterString | InString | InEscape | Broken

fun lex_step :: "lex \<Rightarrow> nat \<Rightarrow> lex" where
  "lex_step Broken c = Broken"
| "lex_step InEscape c = InString"
| "lex_step InString c = (if c = dq then AfterString else if c = bs then InEscape else InString)"
| "lex_step AfterString c =
     (if c = dq then InString else if c = 58 \<or> c = 114 then Broken else Outside)"
| "lex_step Outside c = (if c = dq then InString else if c = 58 then Broken else Outside)"

fun outside :: "lex \<Rightarrow> bool" where
  "outside Outside = True"
| "outside AfterString = True"
| "outside q = False"

text \<open>The text of a value: the completion scan passes it with the level and the flags it
  started with, and it has both braces or reads without a break.\<close>

definition value_text :: "jsstring \<Rightarrow> bool" where
  "value_text c \<longleftrightarrow>
     foldl completion_step (0, False, False) c = (0, False, False) \<and>
     (lbrace \<in> set c \<and> rbrace \<in> set c \<or> outside (foldl lex_step Outside c))"

text \<open>The members of an object up to its closing brace, the characters of a string up to
  its closing quote, white space, and a character that neither scan reacts to.\<close>

definition members_text :: "jsstring \<Rightarrow> bool" where
  "members_text c \<longleftrightarrow>
     foldl completion_step (0, False, False) c = (- 1, False, False) \<and> rbrace \<in> set c"

definition string_text :: "jsstring \<Rightarrow> bool" where
  "string_text c \<longleftrightarrow>
     foldl completion_step (0, True, False) c = (0, False, False) \<and>
     foldl lex_step InString c = AfterString"

definition ws_text :: "jsstring \<Rightarrow> bool" where
  "ws_text w \<longleftrightarrow> list_all is_json_ws w"

definition quiet :: "nat \<Rightarrow> bool" where
  "quiet c \<longleftrightarrow> c \<noteq> dq \<and> c \<noteq> bs \<and> c \<noteq> lbrace \<and> c \<noteq> rbrace \<and> c \<noteq> 58"

section \<open>Basic facts\<close>

lemma trim_Nil_iff: "trim s = [] \<longleftrightarrow> (\<forall>c \<in> set s. is_js_space c)"
proof -
  have "dropWhile is_js_space (rev (dropWhile is_js_space s)) = [] \<longleftrightarrow> dropWhile is_js_space s = []"
  proof (cases "dropWhile is_js_space s")
    case Nil show ?thesis unfolding Nil by simp
  next
    case (Cons x xs)
    then have "\<not> is_js_space x" by (metis hd_dropWhile list.sel(1) list.simps(3))
    with Cons show ?thesis by (auto simp: dropWhile_eq_Nil_conv)
  qed
  then show ?thesis by (simp add: trim_def dropWhile_eq_Nil_conv)
qed

lemma not_space_dq: "\<not> is_js_space dq" by (simp add: is_js_space_def)
lemma not_space_lbrace: "\<not> is_js_space lbrace" by (simp add: is_js_space_def)


lemma index_from_absent:
  "pat \<noteq> [] \<Longrightarrow> hd pat \<notin> set s \<Longrightarrow> index_from pat s k = -1"
proof (induction s arbitrary: k)
  case Nil then show ?case by simp
next
  case (Cons c cs)
  have "take (length pat) (c # cs) \<noteq> pat"
  proof
    assume "take (length pat) (c # cs) = pat"
    then have "hd pat = c" using Cons.prems(1) by (cases pat) auto
    with Cons.prems(2) show False by simp
  qed
  with Cons show ?case by simp
qed

lemma marker_eq: "marker = [34,114,101,115,112,111,110,115,101,34,58,32,34]"
  by (simp add: marker_def str_def)

lemma length_marker: "length marker = 13" by (simp add: marker_eq)

lemma indexOf_marker_absent: "dq \<notin> set s \<Longrightarrow> indexOf s marker from = -1"
  unfolding indexOf_def Let_def
  by (rule index_from_absent) (auto simp: marker_eq dest: in_set_dropD)

lemma looks_complete_needs_braces: "lbrace \<notin> set buf \<Longrightarrow> \<not> looks_complete buf"
  by (simp add: looks_complete_def split: prod.splits)

lemma completion_check_no_brace: "lbrace \<notin> set buf \<Longrightarrow> completion_check buf = ([], False)"
  by (simp add: completion_check_def looks_complete_needs_braces)

lemma consume_without_key:
  assumes "\<not> isInsideResponseValue st" and "dq \<notin> set (fullStreamContent st @ chunk)"
  shows "consume st chunk =
           (st\<lparr>fullStreamContent := fullStreamContent st @ chunk\<rparr>,
            fst (completion_check (fullStreamContent st @ chunk)),
            snd (completion_check (fullStreamContent st @ chunk)))"
  using assms
  by (simp add: consume_def find_key_def stream_value_def indexOf_marker_absent Let_def
           split: prod.splits)

lemma parseLoop_blank:
  assumes "\<not> isInsideResponseValue st"
    and "\<forall>c \<in> set (fullStreamContent st @ concat chunks). is_js_space c"
  shows "parseLoop st chunks = [Error NoContent]"
  using assms
proof (induction chunks arbitrary: st)
  case Nil
  then show ?case by (simp add: on_done_def trim_Nil_iff)
next
  case (Cons c cs)
  let ?buf = "fullStreamContent st @ c"
  have sp: "\<forall>x \<in> set ?buf. is_js_space x" using Cons.prems(2) by auto
  have nq: "dq \<notin> set ?buf" and nb: "lbrace \<notin> set ?buf"
    using sp not_space_dq not_space_lbrace by blast+
  have step: "consume st c = (st\<lparr>fullStreamContent := ?buf\<rparr>, [], False)"
    using consume_without_key [OF Cons.prems(1) nq] completion_check_no_brace [OF nb] by simp
  have "parseLoop (st\<lparr>fullStreamContent := ?buf\<rparr>) cs = [Error NoContent]"
    using Cons.prems by (intro Cons.IH) auto
  with step show ?case by simp
qed

lemma initial_state_fields [simp]:
  "fullStreamContent initial_state = []"
  "isInsideResponseValue initial_state = False"
  "responseValueStartIndex initial_state = -1"
  "responseValueSentSoFar initial_state = []"
  by (simp_all add: initial_state_def)

lemmas scan_eval =
  str_def marker_eq indexOf_def completion_check_def looks_complete_def
  completion_scan_def completion_step_def max_length_def

lemmas json_eval =
  str_def json_parse_def parse_and_check_def skip_ws_def is_json_ws_def parse_literal_def
  parse_number_def parse_int_part_def parse_frac_def parse_exp_def parse_digits_def
  is_digit_def hex4_def hexval_def unescape_char_def

section \<open>The value scan\<close>

lemma escape_flag_simps [simp]:
  "escape_flag e [] = e"
  "escape_flag e (c # cs) = escape_flag (c = bs \<and> \<not> e) cs"
  by (simp_all add: escape_flag_def)

lemma escape_flag_append: "escape_flag e (xs @ ys) = escape_flag (escape_flag e xs) ys"
  by (simp add: escape_flag_def)

lemma escape_flag_snoc: "escape_flag e (xs @ [c]) = (c = bs \<and> \<not> escape_flag e xs)"
  by (simp add: escape_flag_append)

lemma escape_flag_parity:
  "escape_flag False xs = odd (length (takeWhile (\<lambda>c. c = bs) (rev xs)))"
  by (induction xs rule: rev_induct) (simp_all add: escape_flag_snoc)

lemma backslashCount_region:
  "i \<le> length buf \<Longrightarrow>
   backslashCount buf start i =
     length (takeWhile (\<lambda>c. c = bs) (rev (take (i - start) (drop start buf))))"
proof (induction i)
  case 0
  then show ?case by simp
next
  case (Suc k)
  show ?case
  proof (cases "start \<le> k")
    case True
    have "k - start < length (drop start buf)" using Suc.prems True by simp
    then have "take (Suc k - start) (drop start buf) =
               take (k - start) (drop start buf) @ [buf ! k]"
      using True Suc.prems by (simp add: Suc_diff_le take_Suc_conv_app_nth)
    with Suc True show ?thesis by simp
  next
    case False
    then show ?thesis by simp
  qed
qed

lemma backslashCount_flag:
  "i \<le> length buf \<Longrightarrow>
   odd (backslashCount buf start i) = escape_flag False (take (i - start) (drop start buf))"
  by (simp add: backslashCount_region escape_flag_parity)

lemma backslashCount_before:
  assumes "i \<le> length buf" and "start \<le> i" and "0 < start" and "buf ! (start - 1) \<noteq> bs"
  shows "backslashCount buf start i = backslashes_before buf i"
proof -
  let ?P = "\<lambda>c. c = bs"
  let ?r = "take (i - start) (drop start buf)"
  have split: "take i buf = take start buf @ ?r"
    using assms(2) by (metis le_add_diff_inverse take_add)
  have ne: "take start buf \<noteq> []" using assms by auto
  have len: "length (take start buf) = start" using assms by simp
  have "last (take start buf) = take start buf ! (start - 1)"
    using ne len by (simp add: last_conv_nth)
  also have "\<dots> = buf ! (start - 1)" using assms(3) by simp
  finally have "last (take start buf) \<noteq> bs" using assms(4) by simp
  then have "takeWhile ?P (rev (take start buf)) = []"
    using ne by (cases "take start buf" rule: rev_cases) auto
  then have "takeWhile ?P (rev (take i buf)) = takeWhile ?P (rev ?r)"
    unfolding split
    by (auto simp: takeWhile_append intro!: takeWhile_eq_all_conv [THEN iffD2, symmetric])
  then show ?thesis
    using assms(1) by (simp add: backslashCount_region backslashes_before_def)
qed

lemma findEndQuote_single_pass:
  "start \<le> i \<Longrightarrow>
   findEndQuote buf start i =
     map_option (\<lambda>n. i + n)
       (first_unescaped_quote (escape_flag False (take (i - start) (drop start buf))) (drop i buf))"
proof (induction buf start i rule: findEndQuote.induct)
  case (1 buf start i)
  show ?case
  proof (cases "i < length buf")
    case False
    then show ?thesis by (subst findEndQuote.simps) simp
  next
    case True
    then have d: "drop i buf = buf ! i # drop (Suc i) buf"
      by (simp add: Cons_nth_drop_Suc)
    have "even (backslashCount buf start i) =
               (\<not> escape_flag False (take (i - start) (drop start buf)))"
      using backslashCount_flag [of i buf start] True by auto
    then have par: "(backslashCount buf start i mod 2 = 0) =
               (\<not> escape_flag False (take (i - start) (drop start buf)))"
      by (simp add: even_iff_mod_2_eq_zero)
    have "i - start < length (drop start buf)" using True "1.prems" by simp
    then have tk: "take (Suc i - start) (drop start buf) =
               take (i - start) (drop start buf) @ [buf ! i]"
      using True "1.prems" by (simp add: Suc_diff_le take_Suc_conv_app_nth)
    show ?thesis
    proof (cases "buf ! i = dq \<and> backslashCount buf start i mod 2 = 0")
      case yes: True
      then show ?thesis
        using True d par by (subst findEndQuote.simps) simp
    next
      case no: False
      have "findEndQuote buf start i = findEndQuote buf start (Suc i)"
        by (subst findEndQuote.simps) (simp only: True no if_True if_False)
      also have "\<dots> = map_option (\<lambda>n. Suc i + n)
          (first_unescaped_quote (escape_flag False (take (Suc i - start) (drop start buf)))
             (drop (Suc i) buf))"
        using "1.IH" [OF True no] "1.prems" by simp
      finally show ?thesis
        using no par d tk by (auto simp: escape_flag_snoc option.map_comp comp_def)
    qed
  qed
qed

lemma findEndQuote_start:
  "findEndQuote buf start start =
     map_option (\<lambda>n. start + n) (first_unescaped_quote False (drop start buf))"
  by (simp add: findEndQuote_single_pass)

lemma first_unescaped_quote_append:
  "first_unescaped_quote e (xs @ ys) =
     (case first_unescaped_quote e xs of
        Some n \<Rightarrow> Some n
      | None \<Rightarrow> map_option (\<lambda>n. length xs + n) (first_unescaped_quote (escape_flag e xs) ys))"
  by (induction xs arbitrary: e)
     (auto simp: map_option_case split: option.splits)

lemma first_unescaped_quote_bound:
  "first_unescaped_quote e xs = Some n \<Longrightarrow> n < length xs \<and> xs ! n = dq"
  by (induction xs arbitrary: e n) (auto split: if_splits)

lemma findEndQuote_Some_iff:
  "findEndQuote buf start i = Some e \<longleftrightarrow>
     i \<le> e \<and> e < length buf \<and> buf ! e = dq \<and> even (backslashCount buf start e) \<and>
     (\<forall>j. i \<le> j \<and> j < e \<longrightarrow> \<not> (buf ! j = dq \<and> even (backslashCount buf start j)))"
proof (induction buf start i rule: findEndQuote.induct)
  case (1 buf start i)
  show ?case
  proof (cases "i < length buf")
    case False
    then show ?thesis by (subst findEndQuote.simps) auto
  next
    case True
    show ?thesis
    proof (cases "buf ! i = dq \<and> backslashCount buf start i mod 2 = 0")
      case yes: True
      have "findEndQuote buf start i = Some i"
        using True yes by (subst findEndQuote.simps) simp
      moreover have "buf ! i = dq \<and> even (backslashCount buf start i)"
        using yes by (simp add: even_iff_mod_2_eq_zero)
      ultimately show ?thesis
        using True by (auto simp: not_less dest: le_neq_implies_less)
    next
      case no: False
      have eq: "findEndQuote buf start i = findEndQuote buf start (Suc i)"
        by (subst findEndQuote.simps) (simp only: True no if_True if_False)
      have noi: "\<not> (buf ! i = dq \<and> even (backslashCount buf start i))"
        using no by (simp add: even_iff_mod_2_eq_zero)
      have "(\<forall>j. i \<le> j \<and> j < e \<longrightarrow> \<not> (buf ! j = dq \<and> even (backslashCount buf start j))) =
            (\<forall>j. Suc i \<le> j \<and> j < e \<longrightarrow> \<not> (buf ! j = dq \<and> even (backslashCount buf start j)))"
        using noi by (metis Suc_leI le_neq_implies_less Suc_leD)
      moreover have "(i \<le> e \<and> buf ! e = dq \<and> even (backslashCount buf start e)) =
                     (Suc i \<le> e \<and> buf ! e = dq \<and> even (backslashCount buf start e))"
        using noi by (metis Suc_leI le_neq_implies_less Suc_leD)
      ultimately show ?thesis
        unfolding eq "1.IH" [OF True no] by blast
    qed
  qed
qed

lemma findEndQuote_append_quote:
  assumes "start \<le> length buf" and "findEndQuote buf start start = None"
  shows "findEndQuote (buf @ dq # rest) start start =
           (if escape_flag False (drop start buf)
            then map_option (\<lambda>n. length buf + Suc n) (first_unescaped_quote False rest)
            else Some (length buf))"
proof -
  have "first_unescaped_quote False (drop start buf) = None"
    using assms(2) by (simp add: findEndQuote_start)
  then show ?thesis
    using assms(1)
    by (simp add: findEndQuote_start first_unescaped_quote_append map_option_case
             split: option.splits)
qed

section \<open>One iteration of the loop\<close>

lemma index_from_range: "index_from pat s k = -1 \<or> int k \<le> index_from pat s k"
proof (induction s arbitrary: k)
  case Nil
  then show ?case by simp
next
  case (Cons c cs)
  from Cons [of "Suc k"] show ?case by auto
qed

lemma indexOf_range: "indexOf s pat from = -1 \<or> 0 \<le> indexOf s pat from"
  using index_from_range [of pat "drop (min from (length s)) s" "min from (length s)"]
  by (auto simp: indexOf_def Let_def)

lemma find_key_buffer [simp]: "fullStreamContent (find_key st) = fullStreamContent st"
  and find_key_sent [simp]: "responseValueSentSoFar (find_key st) = responseValueSentSoFar st"
  by (simp_all add: find_key_def Let_def)

lemma find_key_inside: "isInsideResponseValue st \<Longrightarrow> find_key st = st"
  by (simp add: find_key_def)

lemma find_key_start_nonneg:
  "0 \<le> responseValueStartIndex st \<Longrightarrow> 0 \<le> responseValueStartIndex (find_key st)"
  using indexOf_range [of "fullStreamContent st" marker "nat (responseValueStartIndex st)"]
  by (auto simp: find_key_def Let_def)

lemma find_key_seeking:
  "responseValueStartIndex (find_key st) < 0 \<Longrightarrow> \<not> isInsideResponseValue st \<Longrightarrow>
   find_key st = st"
  using indexOf_range [of "fullStreamContent st" marker 0]
    indexOf_range [of "fullStreamContent st" marker "nat (responseValueStartIndex st)"]
  by (auto simp: find_key_def Let_def split: if_splits)

lemma stream_value_buffer [simp]:
  "fullStreamContent (fst (stream_value st)) = fullStreamContent st"
  by (simp add: stream_value_def Let_def split: option.splits)

lemma stream_value_outside:
  "\<not> isInsideResponseValue st \<Longrightarrow> stream_value st = (st, [])"
  by (simp add: stream_value_def)

lemma stream_value_events:
  "snd (stream_value st) = [] \<or> (\<exists>d. snd (stream_value st) = [Delta d])"
  by (simp add: stream_value_def Let_def)

lemma stream_value_start_nonneg:
  "0 \<le> responseValueStartIndex st \<Longrightarrow> 0 \<le> responseValueStartIndex (fst (stream_value st))"
  by (simp add: stream_value_def Let_def split: option.splits)

lemma stream_value_start_inside:
  "isInsideResponseValue st \<Longrightarrow> responseValueStartIndex (fst (stream_value st)) < 0 \<Longrightarrow>
   responseValueStartIndex st < 0"
  by (simp add: stream_value_def Let_def split: option.splits if_splits)

lemma completion_check_events:
  "completion_check buf = ([], False) \<or> (\<exists>v. completion_check buf = ([Complete v], True))
   \<or> completion_check buf = ([Error ExceededMaxLength], True)"
  by (simp add: completion_check_def split: option.splits)

lemma completion_check_continue:
  "\<not> snd (completion_check buf) \<Longrightarrow> completion_check buf = ([], False)"
  using completion_check_events [of buf] by auto

lemma consume_alt:
  "consume st chunk =
     (let st1 = find_key (st\<lparr>fullStreamContent := fullStreamContent st @ chunk\<rparr>);
          buf = fullStreamContent st @ chunk
      in (fst (stream_value st1), snd (stream_value st1) @ fst (completion_check buf),
          snd (completion_check buf)))"
  by (simp add: consume_def Let_def case_prod_beta)

lemma consume_buffer [simp]:
  "fullStreamContent (fst (consume st chunk)) = fullStreamContent st @ chunk"
  by (simp add: consume_alt Let_def)

lemma consume_continue_events:
  assumes "consume st chunk = (st', evs, False)"
  shows "evs = [] \<or> (\<exists>d. evs = [Delta d])"
proof -
  let ?st1 = "find_key (st\<lparr>fullStreamContent := fullStreamContent st @ chunk\<rparr>)"
  have "\<not> snd (completion_check (fullStreamContent st @ chunk))"
    using assms by (simp add: consume_alt Let_def)
  then have "completion_check (fullStreamContent st @ chunk) = ([], False)"
    by (rule completion_check_continue)
  then have "evs = snd (stream_value ?st1)"
    using assms by (auto simp: consume_alt Let_def)
  then show ?thesis using stream_value_events [of ?st1] by simp
qed

lemma consume_start_nonneg:
  "0 \<le> responseValueStartIndex st \<Longrightarrow> 0 \<le> responseValueStartIndex (fst (consume st chunk))"
  by (simp add: consume_alt Let_def stream_value_start_nonneg find_key_start_nonneg)

lemma consume_still_seeking:
  assumes "responseValueStartIndex (fst (consume st chunk)) < 0"
    and "\<not> isInsideResponseValue st"
  shows "consume st chunk =
           (st\<lparr>fullStreamContent := fullStreamContent st @ chunk\<rparr>,
            fst (completion_check (fullStreamContent st @ chunk)),
            snd (completion_check (fullStreamContent st @ chunk)))"
proof -
  let ?st0 = "st\<lparr>fullStreamContent := fullStreamContent st @ chunk\<rparr>"
  have neg: "responseValueStartIndex (fst (stream_value (find_key ?st0))) < 0"
    using assms(1) by (simp add: consume_alt Let_def)
  have "\<not> isInsideResponseValue (find_key ?st0)"
  proof
    assume ins: "isInsideResponseValue (find_key ?st0)"
    then have "responseValueStartIndex (find_key ?st0) < 0"
      using neg stream_value_start_inside by blast
    then have "find_key ?st0 = ?st0" using assms(2) by (intro find_key_seeking) simp_all
    with ins assms(2) show False by simp
  qed
  then have sv: "stream_value (find_key ?st0) = (find_key ?st0, [])"
    by (rule stream_value_outside)
  then have "responseValueStartIndex (find_key ?st0) < 0" using neg by simp
  then have "find_key ?st0 = ?st0" using assms(2) by (intro find_key_seeking) simp_all
  with sv show ?thesis by (simp add: consume_alt Let_def)
qed

section \<open>Runs that reach the end of the stream\<close>

lemma consume_all_simps [simp]:
  "consume_all st [] = st"
  "consume_all st (c # cs) = consume_all (fst (consume st c)) cs"
  by (simp_all add: consume_all_def)

lemma consume_all_buffer [simp]:
  "fullStreamContent (consume_all st cs) = fullStreamContent st @ concat cs"
  by (induction cs arbitrary: st) simp_all

lemma consume_all_start_nonneg:
  "0 \<le> responseValueStartIndex st \<Longrightarrow> 0 \<le> responseValueStartIndex (consume_all st cs)"
  by (induction cs arbitrary: st) (simp_all add: consume_start_nonneg)

lemma parseLoop_reaches_done:
  "never_stops st cs \<Longrightarrow> \<exists>ds. parseLoop st cs = map Delta ds @ on_done (consume_all st cs)"
proof (induction cs arbitrary: st)
  case Nil
  then show ?case by (auto intro: exI [of _ "[]"])
next
  case (Cons c cs)
  obtain st' evs stop where step: "consume st c = (st', evs, stop)"
    by (cases "consume st c") auto
  with Cons.prems have ns: "\<not> stop" "never_stops st' cs" by simp_all
  from Cons.IH [OF ns(2)] obtain ds where
    ds: "parseLoop st' cs = map Delta ds @ on_done (consume_all st' cs)" by blast
  from consume_continue_events [of st c st' evs] step ns(1)
  consider "evs = []" | d where "evs = [Delta d]" by auto
  then show ?case
  proof cases
    case 1
    with step ns ds show ?thesis by (auto intro: exI [of _ ds])
  next
    case 2
    with step ns ds show ?thesis by (auto intro: exI [of _ "d # ds"])
  qed
qed

lemma parseLoop_still_seeking:
  assumes "never_stops st cs" and "\<not> isInsideResponseValue st"
    and "responseValueStartIndex (consume_all st cs) < 0"
  shows "parseLoop st cs = on_done (consume_all st cs)
         \<and> isInsideResponseValue (consume_all st cs) = False"
  using assms
proof (induction cs arbitrary: st)
  case Nil
  then show ?case by simp
next
  case (Cons c cs)
  let ?st' = "fst (consume st c)"
  have neg: "responseValueStartIndex ?st' < 0"
  proof (rule ccontr)
    assume "\<not> responseValueStartIndex ?st' < 0"
    then have "0 \<le> responseValueStartIndex (consume_all ?st' cs)"
      by (intro consume_all_start_nonneg) simp
    with Cons.prems(3) show False by simp
  qed
  note step = consume_still_seeking [OF neg Cons.prems(2)]
  have "\<not> snd (completion_check (fullStreamContent st @ c))"
    using Cons.prems(1) step by (simp add: case_prod_beta)
  then have cont: "completion_check (fullStreamContent st @ c) = ([], False)"
    by (rule completion_check_continue)
  have "parseLoop ?st' cs = on_done (consume_all ?st' cs)
        \<and> isInsideResponseValue (consume_all ?st' cs) = False"
    using Cons.prems step cont by (intro Cons.IH) simp_all
  then show ?case using step cont by simp
qed

section \<open>The key search\<close>

lemma index_from_shift: "index_from pat s k = -1 \<longleftrightarrow> index_from pat s 0 = -1"
  and index_from_shift_val: "index_from pat s 0 \<noteq> -1 \<Longrightarrow> index_from pat s k = int k + index_from pat s 0"
proof -
  have "(index_from pat s k = -1 \<longleftrightarrow> index_from pat s j = -1) \<and>
        (index_from pat s j \<noteq> -1 \<longrightarrow> index_from pat s k - int k = index_from pat s j - int j)"
    for k j
  proof (induction s arbitrary: k j)
    case Nil
    then show ?case by simp
  next
    case (Cons c cs)
    from Cons [of "Suc k" "Suc j"] show ?case by auto
  qed
  from this [of k 0] show "index_from pat s k = -1 \<longleftrightarrow> index_from pat s 0 = -1"
    and "index_from pat s 0 \<noteq> -1 \<Longrightarrow> index_from pat s k = int k + index_from pat s 0"
    by auto
qed

lemma occurs_at_bound: "pat \<noteq> [] \<Longrightarrow> occurs_at pat s j \<Longrightarrow> j + length pat \<le> length s"
proof -
  assume a: "pat \<noteq> []" "occurs_at pat s j"
  then have "length (take (length pat) (drop j s)) = length pat"
    by (simp add: occurs_at_def)
  then show ?thesis using a(1) by (cases "j \<le> length s") (auto simp: min_def split: if_splits)
qed

lemma index_from_none_iff:
  "pat \<noteq> [] \<Longrightarrow> index_from pat s k = -1 \<longleftrightarrow> (\<forall>j. \<not> occurs_at pat s j)"
proof (induction s arbitrary: k)
  case Nil
  then show ?case by (auto simp: occurs_at_def)
next
  case (Cons c cs)
  have "(\<forall>j. \<not> occurs_at pat (c # cs) j) \<longleftrightarrow>
        \<not> occurs_at pat (c # cs) 0 \<and> (\<forall>j. \<not> occurs_at pat cs j)"
    (is "?L \<longleftrightarrow> ?R")
  proof
    assume ?L
    then have "\<not> occurs_at pat (c # cs) 0" and "\<forall>j. \<not> occurs_at pat (c # cs) (Suc j)" by blast+
    then show ?R by (simp add: occurs_at_def)
  next
    assume r: ?R
    show ?L
    proof
      fix j show "\<not> occurs_at pat (c # cs) j"
        using r by (cases j) (simp_all add: occurs_at_def)
    qed
  qed
  moreover have "occurs_at pat (c # cs) 0 \<longleftrightarrow> take (length pat) (c # cs) = pat"
    by (simp add: occurs_at_def)
  moreover have "index_from pat (c # cs) k \<noteq> -1" if "take (length pat) (c # cs) = pat"
    using that by simp
  ultimately show ?case using Cons.IH [OF Cons.prems, of "Suc k"] by auto
qed

lemma index_from_some_iff:
  "pat \<noteq> [] \<Longrightarrow>
   index_from pat s k = int (k + n) \<longleftrightarrow>
     occurs_at pat s n \<and> (\<forall>i<n. \<not> occurs_at pat s i)"
proof (induction s arbitrary: k n)
  case Nil
  then show ?case by (auto simp: occurs_at_def)
next
  case (Cons c cs)
  show ?case
  proof (cases "take (length pat) (c # cs) = pat")
    case True
    then have o: "occurs_at pat (c # cs) 0" by (simp add: occurs_at_def)
    have "index_from pat (c # cs) k = int k" using True by simp
    then show ?thesis using o by (cases n) auto
  next
    case False
    then have o: "\<not> occurs_at pat (c # cs) 0" by (simp add: occurs_at_def)
    have eq: "index_from pat (c # cs) k = index_from pat cs (Suc k)" using False by simp
    show ?thesis
    proof (cases n)
      case 0
      have "index_from pat cs (Suc k) \<noteq> int k"
        using index_from_range [of pat cs "Suc k"] by auto
      then show ?thesis using o eq 0 by simp
    next
      case (Suc m)
      have "(\<forall>i<Suc m. \<not> occurs_at pat (c # cs) i) \<longleftrightarrow> (\<forall>i<m. \<not> occurs_at pat cs i)"
        (is "?L \<longleftrightarrow> ?R")
      proof
        assume l: ?L
        show ?R
        proof (intro allI impI)
          fix i assume "i < m"
          then have "\<not> occurs_at pat (c # cs) (Suc i)" using l by simp
          then show "\<not> occurs_at pat cs i" by (simp add: occurs_at_def)
        qed
      next
        assume r: ?R
        show ?L
        proof (intro allI impI)
          fix i assume "i < Suc m"
          then show "\<not> occurs_at pat (c # cs) i"
            using r o by (cases i) (simp_all add: occurs_at_def)
        qed
      qed
      moreover have "occurs_at pat (c # cs) (Suc m) = occurs_at pat cs m"
        by (simp add: occurs_at_def)
      ultimately show ?thesis
        using Cons.IH [OF Cons.prems, of "Suc k" m] eq Suc by simp
    qed
  qed
qed

lemma occurs_at_drop: "occurs_at pat (drop f s) j = occurs_at pat s (f + j)"
  by (simp add: occurs_at_def add.commute)

lemma indexOf_none_iff:
  assumes "pat \<noteq> []"
  shows "indexOf s pat f = -1 \<longleftrightarrow> (\<forall>j\<ge>f. \<not> occurs_at pat s j)"
proof (cases "f \<le> length s")
  case True
  then have "indexOf s pat f = -1 \<longleftrightarrow> (\<forall>j. \<not> occurs_at pat s (f + j))"
    using index_from_none_iff [OF assms, of "drop f s" f]
    by (simp add: indexOf_def Let_def min_def occurs_at_drop)
  also have "\<dots> \<longleftrightarrow> (\<forall>j\<ge>f. \<not> occurs_at pat s j)"
    by (metis le_add1 le_add_diff_inverse)
  finally show ?thesis .
next
  case False
  then have "indexOf s pat f = -1"
    using assms by (simp add: indexOf_def Let_def min_def)
  moreover have "\<not> occurs_at pat s j" if "j \<ge> f" for j
    using occurs_at_bound [OF assms, of s j] that False by auto
  ultimately show ?thesis by simp
qed

lemma indexOf_some_iff:
  assumes "pat \<noteq> []"
  shows "indexOf s pat f = int j \<longleftrightarrow>
           f \<le> j \<and> occurs_at pat s j \<and> (\<forall>i. f \<le> i \<and> i < j \<longrightarrow> \<not> occurs_at pat s i)"
proof (cases "f \<le> length s")
  case True
  show ?thesis
  proof (cases "f \<le> j")
    case le: True
    then obtain n where n: "j = f + n" by (metis le_add_diff_inverse)
    have "(\<forall>i<n. \<not> occurs_at pat s (f + i)) \<longleftrightarrow>
          (\<forall>i. f \<le> i \<and> i < f + n \<longrightarrow> \<not> occurs_at pat s i)"
      (is "?L \<longleftrightarrow> ?R")
    proof
      assume l: ?L
      show ?R
      proof (intro allI impI)
        fix i assume "f \<le> i \<and> i < f + n"
        then have "i - f < n" "f + (i - f) = i" by auto
        with l show "\<not> occurs_at pat s i" by metis
      qed
    next
      assume ?R then show ?L by simp
    qed
    then show ?thesis
      using index_from_some_iff [OF assms, of "drop f s" f n] True n
      by (simp add: indexOf_def Let_def min_def occurs_at_drop)
  next
    case gt: False
    have "indexOf s pat f = -1 \<or> int f \<le> indexOf s pat f"
      using index_from_range [of pat "drop f s" f] True
      by (simp add: indexOf_def Let_def min_def)
    then show ?thesis using gt by auto
  qed
next
  case False
  then have "indexOf s pat f = -1"
    using assms by (simp add: indexOf_def Let_def min_def)
  moreover have "\<not> occurs_at pat s j" if "j \<ge> f"
    using occurs_at_bound [OF assms, of s j] that False by auto
  ultimately show ?thesis by auto
qed

lemma indexOf_cases:
  assumes "pat \<noteq> []"
  obtains "indexOf s pat f = -1" | j where "indexOf s pat f = int j"
  using indexOf_range [of s pat f] by (metis nonneg_int_cases)

lemma occurs_at_append:
  "j + length pat \<le> length s \<Longrightarrow> occurs_at pat (s @ t) j = occurs_at pat s j"
  by (simp add: occurs_at_def)

lemma occurs_at_appendI: "pat \<noteq> [] \<Longrightarrow> occurs_at pat s j \<Longrightarrow> occurs_at pat (s @ t) j"
  using occurs_at_bound [of pat s j] by (simp add: occurs_at_append)

lemma indexOf_append_none:
  "pat \<noteq> [] \<Longrightarrow> indexOf (s @ t) pat f = -1 \<Longrightarrow> indexOf s pat f = -1"
  by (auto simp: indexOf_none_iff dest: occurs_at_appendI)

lemma indexOf_append_some:
  assumes "pat \<noteq> []" and "indexOf s pat f = int j"
  shows "indexOf (s @ t) pat f = int j"
proof -
  from assms have j: "f \<le> j" "occurs_at pat s j" "\<forall>i. f \<le> i \<and> i < j \<longrightarrow> \<not> occurs_at pat s i"
    by (simp_all add: indexOf_some_iff)
  have b: "j + length pat \<le> length s" using occurs_at_bound [OF assms(1) j(2)] .
  have "\<not> occurs_at pat (s @ t) i" if "f \<le> i \<and> i < j" for i
    using j(3) that b by (simp add: occurs_at_append)
  then show ?thesis
    using j(1,2) assms(1) by (simp add: indexOf_some_iff occurs_at_appendI)
qed

lemma marker_nonempty [simp]: "marker \<noteq> []"
  by (simp add: marker_eq)

section \<open>The iteration in terms of the key search\<close>

lemma key_search_find_key:
  "key_search st (fullStreamContent st) = None \<Longrightarrow> find_key st = st"
  "key_search st (fullStreamContent st) = Some vs \<Longrightarrow>
   (isInsideResponseValue st \<longrightarrow> 0 \<le> responseValueStartIndex st) \<Longrightarrow>
     find_key st = st\<lparr>isInsideResponseValue := True, responseValueStartIndex := int vs\<rparr>"
proof -
  note r = indexOf_range [of "fullStreamContent st" marker
      "if responseValueStartIndex st > -1 then nat (responseValueStartIndex st) else 0"]
  show "key_search st (fullStreamContent st) = None \<Longrightarrow> find_key st = st"
    by (auto simp: key_search_def find_key_def Let_def split: if_splits)
  show "key_search st (fullStreamContent st) = Some vs \<Longrightarrow>
   (isInsideResponseValue st \<longrightarrow> 0 \<le> responseValueStartIndex st) \<Longrightarrow>
     find_key st = st\<lparr>isInsideResponseValue := True, responseValueStartIndex := int vs\<rparr>"
    using r
    by (cases "isInsideResponseValue st")
       (auto simp: key_search_def find_key_def Let_def split: if_splits)
qed

lemma consume_no_key:
  assumes "key_search st (fullStreamContent st @ chunk) = None"
  shows "consume st chunk =
           (st\<lparr>fullStreamContent := fullStreamContent st @ chunk\<rparr>,
            completion_check (fullStreamContent st @ chunk))"
proof -
  let ?st0 = "st\<lparr>fullStreamContent := fullStreamContent st @ chunk\<rparr>"
  have k: "key_search ?st0 (fullStreamContent ?st0) = None"
    using assms by (auto simp: key_search_def Let_def split: if_splits)
  have "\<not> isInsideResponseValue ?st0" using assms by (auto simp: key_search_def)
  then show ?thesis
    using key_search_find_key(1) [OF k]
    by (simp add: consume_alt Let_def stream_value_outside)
qed

lemma consume_key:
  assumes "key_search st (fullStreamContent st @ chunk) = Some vs"
    and "isInsideResponseValue st \<longrightarrow> 0 \<le> responseValueStartIndex st"
  shows "consume st chunk =
     (let buf = fullStreamContent st @ chunk;
          v = current_value buf vs;
          sent = responseValueSentSoFar st;
          found = findEndQuote buf vs vs
      in (\<lparr> fullStreamContent = buf,
            isInsideResponseValue = (found = None),
            responseValueStartIndex = (case found of None \<Rightarrow> int vs | Some e \<Rightarrow> int e + 1),
            responseValueSentSoFar = (if length sent < length v then v else sent) \<rparr>,
          (if length sent < length v then [Delta (drop (length sent) v)] else [])
            @ fst (completion_check buf),
          snd (completion_check buf)))"
proof -
  let ?st0 = "st\<lparr>fullStreamContent := fullStreamContent st @ chunk\<rparr>"
  have k: "key_search ?st0 (fullStreamContent ?st0) = Some vs"
    using assms(1) by (auto simp: key_search_def Let_def split: if_splits)
  have "isInsideResponseValue ?st0 \<longrightarrow> 0 \<le> responseValueStartIndex ?st0"
    using assms(2) by simp
  note fk = key_search_find_key(2) [OF k this]
  show ?thesis
    unfolding consume_alt fk
    by (cases st) (simp add: Let_def stream_value_def split: option.splits)
qed

section \<open>Events of a run\<close>

lemma deltas_of_append [simp]: "deltas_of (xs @ ys) = deltas_of xs @ deltas_of ys"
  by (induction xs rule: deltas_of.induct) simp_all

lemma deltas_of_map_Delta [simp]: "deltas_of (map Delta ds) = ds"
  by (induction ds) simp_all

lemma deltas_of_completion_check [simp]: "deltas_of (fst (completion_check buf)) = []"
  using completion_check_events [of buf] by auto

lemma deltas_of_on_done [simp]: "deltas_of (on_done st) = []"
  by (simp add: on_done_def split: option.splits)

lemma parseLoop_closed:
  assumes "\<not> isInsideResponseValue st" and "0 \<le> responseValueStartIndex st"
    and "indexOf (fullStreamContent st @ concat chunks) marker
           (nat (responseValueStartIndex st)) = -1"
  shows "deltas_of (parseLoop st chunks) = []"
  using assms
proof (induction chunks arbitrary: st)
  case Nil
  then show ?case by simp
next
  case (Cons c cs)
  let ?st' = "st\<lparr>fullStreamContent := fullStreamContent st @ c\<rparr>"
  have "indexOf ((fullStreamContent st @ c) @ concat cs) marker
          (nat (responseValueStartIndex st)) = -1"
    using Cons.prems(3) by simp
  then have nf: "indexOf (fullStreamContent st @ c) marker (nat (responseValueStartIndex st)) = -1"
    by (rule indexOf_append_none [OF marker_nonempty])
  then have k: "key_search st (fullStreamContent st @ c) = None"
    using Cons.prems(1,2) by (simp add: key_search_def)
  have ih: "deltas_of (parseLoop ?st' cs) = []"
    using Cons.prems by (intro Cons.IH) simp_all
  show ?case
    using ih by (simp add: consume_no_key [OF k] case_prod_beta)
qed

section \<open>The first value of a stream\<close>

lemma findEndQuote_Some_bounds:
  "findEndQuote buf start start = Some e \<Longrightarrow> start \<le> e \<and> e < length buf"
  by (simp add: findEndQuote_Some_iff)

lemma findEndQuote_append_Some:
  assumes "findEndQuote buf start start = Some e"
  shows "findEndQuote (buf @ c) start start = Some e"
proof -
  have b: "start \<le> length buf" using findEndQuote_Some_bounds [OF assms] by simp
  from assms obtain n where n: "first_unescaped_quote False (drop start buf) = Some n"
    and e: "e = start + n"
    by (auto simp: findEndQuote_start)
  show ?thesis
    using b n e by (simp add: findEndQuote_start first_unescaped_quote_append)
qed

lemma findEndQuote_append_None:
  assumes "findEndQuote buf start start = None" and "start \<le> length buf"
  shows "findEndQuote (buf @ c) start start =
           map_option (\<lambda>n. length buf + n)
             (first_unescaped_quote (escape_flag False (drop start buf)) c)"
proof -
  have "first_unescaped_quote False (drop start buf) = None"
    using assms(1) by (simp add: findEndQuote_start)
  then show ?thesis
    using assms(2)
    by (simp add: findEndQuote_start first_unescaped_quote_append map_option_case
             split: option.splits)
qed

lemma substring_take_drop: "a \<le> b \<Longrightarrow> b \<le> length s \<Longrightarrow> substring s a b = take (b - a) (drop a s)"
  by (simp add: substring_def min_def max_def)

lemma substring_append: "a \<le> b \<Longrightarrow> b \<le> length s \<Longrightarrow> substring (s @ t) a b = substring s a b"
  by (simp add: substring_take_drop)

lemma current_value_grows:
  assumes "findEndQuote buf start start = None" and "start \<le> length buf"
  shows "\<exists>x. current_value (buf @ c) start = drop start buf @ x"
proof (cases "first_unescaped_quote (escape_flag False (drop start buf)) c")
  case None
  then have "findEndQuote (buf @ c) start start = None"
    using findEndQuote_append_None [OF assms] by simp
  then show ?thesis using assms(2) by (simp add: current_value_def)
next
  case (Some n)
  then have f: "findEndQuote (buf @ c) start start = Some (length buf + n)"
    using findEndQuote_append_None [OF assms] by simp
  have "n < length c" using first_unescaped_quote_bound [OF Some] by simp
  then have "substring (buf @ c) start (length buf + n) = drop start buf @ take n c"
    using assms(2) by (simp add: substring_take_drop)
  then show ?thesis using f by (simp add: current_value_def)
qed

lemma current_value_closed:
  assumes "findEndQuote buf start start = Some e"
  shows "current_value (buf @ c) start = current_value buf start"
  using findEndQuote_append_Some [OF assms, of c] assms findEndQuote_Some_bounds [OF assms]
  by (simp add: current_value_def substring_append)

lemma marker_bound:
  assumes "indexOf buf marker f = int k"
  shows "k + length marker \<le> length buf"
  using assms occurs_at_bound [of marker buf k] by (simp add: indexOf_some_iff)

lemma view_buffer [simp]: "fullStreamContent (view buf) = buf"
  by (simp add: view_def Let_def split: option.splits)

lemma view_sent: "responseValueSentSoFar (view buf) = known_value buf"
  by (simp add: view_def known_value_def current_value_def Let_def split: option.splits)

lemma view_start: "isInsideResponseValue (view buf) \<longrightarrow> 0 \<le> responseValueStartIndex (view buf)"
  by (simp add: view_def Let_def split: option.splits)

lemma view_Nil: "view [] = initial_state"
  by (simp add: view_def initial_state_def indexOf_def marker_eq)

lemma single_marker_prefix:
  assumes "single_marker (buf @ c)"
  shows "single_marker buf"
proof (cases rule: indexOf_cases [OF marker_nonempty, of buf 0])
  case 1
  then show ?thesis by (simp add: single_marker_def)
next
  case (2 k)
  then have k': "indexOf (buf @ c) marker 0 = int k"
    by (rule indexOf_append_some [OF marker_nonempty])
  let ?vs = "k + length marker"
  show ?thesis
  proof (cases "findEndQuote buf ?vs ?vs")
    case None
    then show ?thesis using 2 by (simp add: single_marker_def)
  next
    case (Some e)
    then have "findEndQuote (buf @ c) ?vs ?vs = Some e" by (rule findEndQuote_append_Some)
    then have "indexOf (buf @ c) marker (Suc e) = -1"
      using assms k' by (simp add: single_marker_def)
    then have "indexOf buf marker (Suc e) = -1"
      by (rule indexOf_append_none [OF marker_nonempty])
    then show ?thesis using 2 Some by (simp add: single_marker_def)
  qed
qed

lemma view_step:
  assumes "single_marker (buf @ c)"
  shows "fst (consume (view buf) c) = view (buf @ c)"
    and "\<exists>x. known_value (buf @ c) = known_value buf @ x"
proof -
  have both: "fst (consume (view buf) c) = view (buf @ c) \<and>
              (\<exists>x. known_value (buf @ c) = known_value buf @ x)"
  proof (cases rule: indexOf_cases [OF marker_nonempty, of buf 0])
    case 1
    then have v: "view buf = \<lparr> fullStreamContent = buf, isInsideResponseValue = False,
             responseValueStartIndex = -1, responseValueSentSoFar = [] \<rparr>"
      by (simp add: view_def)
    have kv: "known_value buf = []" using 1 by (simp add: known_value_def)
    show ?thesis
    proof (cases rule: indexOf_cases [OF marker_nonempty, of "buf @ c" 0])
      case none: 1
      then have k: "key_search (view buf) (fullStreamContent (view buf) @ c) = None"
        by (simp add: v key_search_def)
      have v': "view (buf @ c) = \<lparr> fullStreamContent = buf @ c, isInsideResponseValue = False,
             responseValueStartIndex = -1, responseValueSentSoFar = [] \<rparr>"
        using none by (simp add: view_def)
      show ?thesis
        unfolding consume_no_key [OF k] by (simp add: v v' kv)
    next
      case (2 k)
      then have ks: "key_search (view buf) (fullStreamContent (view buf) @ c) =
                     Some (k + length marker)"
        by (simp add: v key_search_def)
      let ?vs = "k + length marker"
      have v': "view (buf @ c) =
             \<lparr> fullStreamContent = buf @ c,
               isInsideResponseValue = (findEndQuote (buf @ c) ?vs ?vs = None),
               responseValueStartIndex =
                 (case findEndQuote (buf @ c) ?vs ?vs of None \<Rightarrow> int ?vs | Some e \<Rightarrow> int e + 1),
               responseValueSentSoFar = current_value (buf @ c) ?vs \<rparr>"
        using 2 by (simp add: view_def current_value_def Let_def split: option.splits)
      show ?thesis
        unfolding consume_key [OF ks view_start] by (simp add: v v' kv Let_def)
    qed
  next
    case (2 k)
    then have k': "indexOf (buf @ c) marker 0 = int k"
      by (rule indexOf_append_some [OF marker_nonempty])
    let ?vs = "k + length marker"
    have vb: "?vs \<le> length buf" using marker_bound [OF 2] .
    show ?thesis
    proof (cases "findEndQuote buf ?vs ?vs")
      case None
      then have v: "view buf = \<lparr> fullStreamContent = buf, isInsideResponseValue = True,
             responseValueStartIndex = int ?vs, responseValueSentSoFar = drop ?vs buf \<rparr>"
        using 2 by (simp add: view_def)
      have ks: "key_search (view buf) (fullStreamContent (view buf) @ c) = Some ?vs"
        by (simp add: v key_search_def)
      from current_value_grows [OF None vb, of c] obtain x where
        x: "current_value (buf @ c) ?vs = drop ?vs buf @ x" by blast
      have kv: "known_value buf = drop ?vs buf" "known_value (buf @ c) = drop ?vs buf @ x"
        using 2 k' None x by (simp_all add: known_value_def current_value_def)
      have v': "view (buf @ c) =
             \<lparr> fullStreamContent = buf @ c,
               isInsideResponseValue = (findEndQuote (buf @ c) ?vs ?vs = None),
               responseValueStartIndex =
                 (case findEndQuote (buf @ c) ?vs ?vs of None \<Rightarrow> int ?vs | Some e \<Rightarrow> int e + 1),
               responseValueSentSoFar = current_value (buf @ c) ?vs \<rparr>"
        using k' by (simp add: view_def current_value_def Let_def split: option.splits)
      have "fst (consume (view buf) c) = view (buf @ c)"
        unfolding consume_key [OF ks view_start]
        using x by (auto simp: v v' Let_def)
      then show ?thesis using kv by simp
    next
      case (Some e)
      then have v: "view buf = \<lparr> fullStreamContent = buf, isInsideResponseValue = False,
             responseValueStartIndex = int e + 1,
             responseValueSentSoFar = substring buf ?vs e \<rparr>"
        using 2 by (simp add: view_def)
      have fe: "findEndQuote (buf @ c) ?vs ?vs = Some e"
        using Some by (rule findEndQuote_append_Some)
      then have nf: "indexOf (buf @ c) marker (Suc e) = -1"
        using assms k' by (simp add: single_marker_def)
      have "nat (int e + 1) = Suc e" by simp
      then have ks: "key_search (view buf) (fullStreamContent (view buf) @ c) = None"
        using nf by (simp add: v key_search_def)
      have b: "?vs \<le> e" "e < length buf" using findEndQuote_Some_bounds [OF Some] by simp_all
      have v': "view (buf @ c) = \<lparr> fullStreamContent = buf @ c, isInsideResponseValue = False,
             responseValueStartIndex = int e + 1,
             responseValueSentSoFar = substring (buf @ c) ?vs e \<rparr>"
        using k' fe by (simp add: view_def)
      have "fst (consume (view buf) c) = view (buf @ c)"
        unfolding consume_no_key [OF ks]
        using b by (simp add: v v' substring_append)
      moreover have "known_value (buf @ c) = known_value buf"
        using 2 k' current_value_closed [OF Some, of c] by (simp add: known_value_def)
      ultimately show ?thesis by simp
    qed
  qed
  then show "fst (consume (view buf) c) = view (buf @ c)"
    and "\<exists>x. known_value (buf @ c) = known_value buf @ x" by simp_all
qed

lemma consume_all_snoc: "consume_all st (cs @ [c]) = fst (consume (consume_all st cs) c)"
  by (simp add: consume_all_def)

lemma step_events_snoc:
  "step_events st (cs @ [c]) = step_events st cs @ fst (snd (consume (consume_all st cs) c))"
  by (induction cs arbitrary: st) (simp_all add: case_prod_beta)

lemma consume_all_view:
  "single_marker (concat cs) \<Longrightarrow> consume_all initial_state cs = view (concat cs)"
proof (induction cs rule: rev_induct)
  case Nil
  then show ?case by (simp add: view_Nil)
next
  case (snoc c cs)
  then have sm: "single_marker (concat cs @ c)" by simp
  then have "single_marker (concat cs)" by (rule single_marker_prefix)
  then have "consume_all initial_state cs = view (concat cs)" by (rule snoc.IH)
  then show ?case using view_step(1) [OF sm] by (simp add: consume_all_snoc)
qed

lemma consume_sent:
  "responseValueSentSoFar (fst (consume st c)) =
     (let st1 = find_key (st\<lparr>fullStreamContent := fullStreamContent st @ c\<rparr>);
          v = current_value (fullStreamContent st1) (nat (responseValueStartIndex st1))
      in if isInsideResponseValue st1 \<and> length (responseValueSentSoFar st) < length v
         then v else responseValueSentSoFar st)"
  by (simp add: consume_alt stream_value_def Let_def split: option.splits)

lemma consume_deltas:
  "deltas_of (fst (snd (consume st c))) =
     (if length (responseValueSentSoFar st) < length (responseValueSentSoFar (fst (consume st c)))
      then [drop (length (responseValueSentSoFar st)) (responseValueSentSoFar (fst (consume st c)))]
      else [])"
  by (simp add: consume_alt stream_value_def Let_def split: option.splits)

lemma consume_cursor_mono:
  "length (responseValueSentSoFar st) \<le> length (responseValueSentSoFar (fst (consume st c)))"
  by (simp add: consume_sent Let_def)

lemma step_events_view:
  "single_marker (concat cs) \<Longrightarrow>
   concat (deltas_of (step_events initial_state cs)) = known_value (concat cs)"
proof (induction cs rule: rev_induct)
  case Nil
  then show ?case by (simp add: known_value_def indexOf_def marker_eq)
next
  case (snoc c cs)
  then have sm: "single_marker (concat cs @ c)" by simp
  then have sp: "single_marker (concat cs)" by (rule single_marker_prefix)
  have st: "consume_all initial_state cs = view (concat cs)"
    using sp by (rule consume_all_view)
  from view_step(2) [OF sm] obtain x where
    x: "known_value (concat cs @ c) = known_value (concat cs) @ x" by blast
  have "deltas_of (fst (snd (consume (view (concat cs)) c))) = (if x = [] then [] else [x])"
    unfolding consume_deltas view_step(1) [OF sm] view_sent x by simp
  then show ?case
    using snoc.IH [OF sp] x st by (simp add: step_events_snoc)
qed

section \<open>The encoder\<close>

lemma replace_all_append: "replace_all c rep (a @ b) = replace_all c rep a @ replace_all c rep b"
  by (simp add: replace_all_def)

lemma replace_all_Nil [simp]: "replace_all c rep [] = []"
  by (simp add: replace_all_def)

lemma escapedContent_append: "escapedContent (a @ b) = escapedContent a @ escapedContent b"
  by (simp add: escapedContent_def replace_all_append)

lemma escapedContent_Nil [simp]: "escapedContent [] = []"
  by (simp add: escapedContent_def)

lemma escapedContent_single: "escapedContent [c] = escape_char c"
  by (simp add: escapedContent_def replace_all_def escape_char_def)

lemma escapedContent_Cons: "escapedContent (c # s) = escape_char c @ escapedContent s"
  using escapedContent_append [of "[c]" s] by (simp add: escapedContent_single)

lemma escapedContent_chars: "escapedContent s = concat (map escape_char s)"
  by (induction s) (simp_all add: escapedContent_Cons)

lemma escapedContent_concat: "escapedContent (concat fs) = concat (map escapedContent fs)"
  by (induction fs) (simp_all add: escapedContent_append)

lemma write_fragments_sent:
  "write_fragments full full fragments = map escapedContent fragments"
  by (induction fragments arbitrary: full) (simp_all add: Let_def)

lemma session_continue_writes_eq:
  "session_continue_writes fragments sig =
     stream_open # map escapedContent fragments @ [stream_close]"
  by (cases sig) (simp_all add: session_continue_writes_def write_fragments_sent)

lemma session_continue_concat:
  "concat (session_continue_writes fragments sig) =
     stream_open @ escapedContent (concat fragments) @ stream_close"
  by (simp add: session_continue_writes_eq escapedContent_concat)

lemma session_continue_prefix:
  "n \<le> length fragments \<Longrightarrow>
   concat (take (Suc n) (session_continue_writes fragments sig)) =
     stream_open @ escapedContent (concat (take n fragments))"
  by (simp add: session_continue_writes_eq escapedContent_concat take_map)

section \<open>Parsing the encoder's text\<close>

lemma parse_string_chars_escaped:
  assumes "\<forall>c \<in> set v. json_safe c"
  shows "parse_string_chars (escapedContent v @ dq # rest) = Some (v, rest)"
  using assms
proof (induction v)
  case Nil
  then show ?case by (cases rest) simp_all
next
  case (Cons c v)
  let ?X = "escapedContent v @ dq # rest"
  have ih: "parse_string_chars ?X = Some (v, rest)" using Cons by simp
  obtain e cs where X: "?X = e # cs" by (cases ?X) auto
  have safe: "json_safe c" using Cons.prems by simp
  consider "c = bs" | "c = dq" | "c = 10" | "c = 13" | "c = 9"
    | "c \<noteq> bs" "c \<noteq> dq" "c \<noteq> 10" "c \<noteq> 13" "c \<noteq> 9" by blast
  then show ?case
  proof cases
    case 6
    then have "\<not> c < 32" using safe by (auto simp: json_safe_def)
    then have "parse_string_chars (c # e # cs) = Some (c # v, rest)"
      using 6 ih X by simp
    then show ?thesis using 6 X by (simp add: escapedContent_Cons escape_char_def)
  qed (use ih in \<open>simp_all add: escapedContent_Cons escape_char_def unescape_char_def\<close>)
qed

lemma parse_fuel_mono:
  "(parse_value n s = Some r \<longrightarrow> parse_value (n + k) s = Some r)"
  "(parse_elements n s es = Some r \<longrightarrow> parse_elements (n + k) s es = Some r)"
  "(parse_members n s ms = Some r \<longrightarrow> parse_members (n + k) s ms = Some r)"
proof (induction n s and n s es and n s ms arbitrary: r and r and r
       rule: parse_value_parse_elements_parse_members.induct)
  case (1 s)
  then show ?case by simp
next
  case (2 n s)
  then show ?case by (auto split: list.splits option.splits if_splits)
next
  case (3 s acc)
  then show ?case by simp
next
  case (4 n s acc)
  then show ?case by (auto split: list.splits option.splits if_splits)
next
  case (5 s acc)
  then show ?case by simp
next
  case (6 n s acc)
  then show ?case by (cases r) (auto split: list.splits option.splits if_splits)
qed

lemma stream_open_eq:
  "stream_open = [lbrace, dq, 114, 101, 115, 112, 111, 110, 115, 101, dq, 58, 32, dq]"
  by (simp add: stream_open_def str_def)

lemma stream_open_marker: "stream_open = lbrace # marker"
  by (simp add: stream_open_eq marker_eq)

lemma stream_close_eq:
  "stream_close = dq # butlast (tl stream_close) @ [rbrace]"
  by (simp add: stream_close_def str_def)

lemma parse_wire_fuel:
  assumes "\<forall>c \<in> set v. json_safe c"
  shows "parse_value 10 (stream_open @ escapedContent v @ stream_close) = Some (wire_object v, [])"
proof -
  have ten: "10 = Suc (Suc (Suc (Suc (Suc (Suc (Suc (Suc (Suc (Suc 0)))))))))" by simp
  note ps = parse_string_chars_escaped [OF assms]
  show ?thesis
    unfolding ten
    by (simp add: stream_open_eq stream_close_def wire_object_def ps
          str_def skip_ws_def is_json_ws_def parse_literal_def)
qed

lemma json_parse_wire:
  assumes "\<forall>c \<in> set v. json_safe c"
  shows "json_parse (stream_open @ escapedContent v @ stream_close) = Some (wire_object v)"
proof -
  let ?S = "stream_open @ escapedContent v @ stream_close"
  have "10 \<le> Suc (length ?S)" by (simp add: stream_open_eq)
  then obtain k where k: "Suc (length ?S) = 10 + k" using le_Suc_ex by blast
  have "parse_value (10 + k) ?S = Some (wire_object v, [])"
    using parse_fuel_mono(1) [of 10 ?S "(wire_object v, [])" k] parse_wire_fuel [OF assms]
    by blast
  then show ?thesis unfolding json_parse_def k by (simp add: skip_ws_def)
qed

lemma wire_object_not_null: "wire_object v \<noteq> JNull"
  by (simp add: wire_object_def)

lemma parse_and_check_wire:
  "\<forall>c \<in> set v. json_safe c \<Longrightarrow>
   parse_and_check (stream_open @ escapedContent v @ stream_close) = Some (wire_object v)"
  by (simp add: parse_and_check_def json_parse_wire wire_object_not_null)

section \<open>Parsing a text and a longer text\<close>

lemma skip_ws_append: "skip_ws s \<noteq> [] \<Longrightarrow> skip_ws (s @ t) = skip_ws s @ t"
  by (auto simp: skip_ws_def dropWhile_append dropWhile_eq_Nil_conv)

lemma parse_string_chars_Cons:
  "parse_string_chars (c # xs) =
     (if c = dq then Some ([], xs)
      else if c = bs then
        (case xs of
           [] \<Rightarrow> None
         | e # cs \<Rightarrow>
             if e = 117 then
               (case hex4 cs of
                  None \<Rightarrow> None
                | Some (u, r) \<Rightarrow>
                    (case parse_string_chars r of
                       None \<Rightarrow> None
                     | Some (v, rest) \<Rightarrow> Some (u # v, rest)))
             else
               (case unescape_char e of
                  None \<Rightarrow> None
                | Some ch \<Rightarrow>
                    (case parse_string_chars cs of
                       None \<Rightarrow> None
                     | Some (v, rest) \<Rightarrow> Some (ch # v, rest))))
      else if c < 32 then None
      else
        (case parse_string_chars xs of
           None \<Rightarrow> None
         | Some (v, rest) \<Rightarrow> Some (c # v, rest)))"
  by (cases xs) (auto simp: hex4_def split: list.splits option.splits)

lemma hex4_append: "hex4 s = Some (u, r) \<Longrightarrow> hex4 (s @ t) = Some (u, r @ t)"
  by (auto simp: hex4_def split: list.splits option.splits)

lemma hex4_shorter: "hex4 s = Some (u, r) \<Longrightarrow> length r < length s"
  by (auto simp: hex4_def split: list.splits option.splits)

lemma parse_string_chars_append:
  "parse_string_chars s = Some (v, r) \<Longrightarrow> parse_string_chars (s @ t) = Some (v, r @ t)"
proof (induction s arbitrary: v r rule: length_induct)
  case (1 s)
  show ?case
  proof (cases s)
    case Nil
    with 1 show ?thesis by simp
  next
    case (Cons c xs)
    note ih = "1.IH" [rule_format]
    show ?thesis
    proof (cases "c = dq")
      case True
      then show ?thesis using 1(2) Cons by (simp add: parse_string_chars_Cons)
    next
      case ndq: False
      show ?thesis
      proof (cases "c = bs")
        case True
        then obtain e cs where xs: "xs = e # cs"
          using 1(2) Cons by (cases xs) (auto simp: parse_string_chars_Cons)
        show ?thesis
        proof (cases "e = 117")
          case u: True
          then obtain w r0 v0 where h: "hex4 cs = Some (w, r0)"
            and p: "parse_string_chars r0 = Some (v0, r)" and v: "v = w # v0"
            using 1(2) Cons xs True
            by (auto simp: parse_string_chars_Cons split: option.splits)
          have "length r0 < length s" using hex4_shorter [OF h] Cons xs by simp
          then have "parse_string_chars (r0 @ t) = Some (v0, r @ t)" using ih p by blast
          then show ?thesis
            using True u Cons xs hex4_append [OF h, of t] v
            by (simp add: parse_string_chars_Cons)
        next
          case nu: False
          then obtain ch v0 where un: "unescape_char e = Some ch"
            and p: "parse_string_chars cs = Some (v0, r)" and v: "v = ch # v0"
            using 1(2) Cons xs True
            by (auto simp: parse_string_chars_Cons split: option.splits)
          have "parse_string_chars (cs @ t) = Some (v0, r @ t)"
            using ih [of cs] p Cons xs by simp
          then show ?thesis
            using True nu Cons xs un v by (simp add: parse_string_chars_Cons)
        qed
      next
        case nbs: False
        then obtain v0 where p: "parse_string_chars xs = Some (v0, r)" and v: "v = c # v0"
          and c: "\<not> c < 32"
          using 1(2) Cons ndq
          by (auto simp: parse_string_chars_Cons split: option.splits if_splits)
        have "parse_string_chars (xs @ t) = Some (v0, r @ t)"
          using ih [of xs] p Cons by simp
        then show ?thesis
          using ndq nbs c Cons v by (simp add: parse_string_chars_Cons)
      qed
    qed
  qed
qed

lemma parse_digits_append:
  "parse_digits s = Some (ds, r) \<Longrightarrow> r \<noteq> [] \<Longrightarrow> parse_digits (s @ t) = Some (ds, r @ t)"
  by (auto simp: parse_digits_def takeWhile_append dropWhile_append dropWhile_eq_Nil_conv
           split: if_splits)

lemma parse_digits_text:
  "parse_digits s = Some (ds, r) \<Longrightarrow> s = ds @ r \<and> (\<forall>c \<in> set ds. is_digit c) \<and> ds \<noteq> []"
  by (auto simp: parse_digits_def split: if_splits dest: set_takeWhileD)

lemma parse_int_part_append:
  "parse_int_part s = Some (i, r) \<Longrightarrow> r \<noteq> [] \<Longrightarrow> parse_int_part (s @ t) = Some (i, r @ t)"
  by (cases s) (auto simp: parse_int_part_def dest: parse_digits_append [where t = t] split: if_splits)

lemma parse_frac_append:
  "parse_frac s = Some (f, r) \<Longrightarrow> r \<noteq> [] \<Longrightarrow> parse_frac (s @ t) = Some (f, r @ t)"
  by (cases s)
     (auto simp: parse_frac_def dest: parse_digits_append [where t = t]
           split: if_splits option.splits)

lemma parse_exp_append:
  "parse_exp s = Some (e, r) \<Longrightarrow> r \<noteq> [] \<Longrightarrow> parse_exp (s @ t) = Some (e, r @ t)"
  by (cases s)
     (auto simp: parse_exp_def dest: parse_digits_append [where t = t]
           split: if_splits option.splits list.splits)

lemma parse_frac_rest: "parse_frac s = Some (f, r) \<Longrightarrow> r \<noteq> [] \<Longrightarrow> s \<noteq> []"
  by (auto simp: parse_frac_def)

lemma parse_exp_rest: "parse_exp s = Some (e, r) \<Longrightarrow> r \<noteq> [] \<Longrightarrow> s \<noteq> []"
  by (auto simp: parse_exp_def)

lemma parse_number_append:
  assumes "parse_number s = Some (v, r)" and "r \<noteq> []"
  shows "parse_number (s @ t) = Some (v, r @ t)"
proof -
  obtain sign s1 where sg: "(case s of [] \<Rightarrow> ([], []) | c # cs \<Rightarrow> if c = 45 then ([c], cs) else ([], s))
                            = (sign, s1)"
    by (cases "case s of [] \<Rightarrow> ([], []) | c # cs \<Rightarrow> if c = 45 then ([c], cs) else ([], s)") auto
  from assms(1) sg obtain i s2 f s3 e where
    p: "parse_int_part s1 = Some (i, s2)" "parse_frac s2 = Some (f, s3)"
       "parse_exp s3 = Some (e, r)" "v = JNumber (sign @ i @ f @ e)"
    by (auto simp: parse_number_def split: option.splits)
  have s3: "s3 \<noteq> []" using parse_exp_rest [OF p(3) assms(2)] .
  have s2: "s2 \<noteq> []" using parse_frac_rest [OF p(2) s3] .
  have s1: "s1 \<noteq> []" using p(1) by (auto simp: parse_int_part_def)
  have sg': "(case s @ t of [] \<Rightarrow> ([], []) | c # cs \<Rightarrow> if c = 45 then ([c], cs) else ([], s @ t))
             = (sign, s1 @ t)"
    using sg s1 by (cases s) (auto split: if_splits)
  show ?thesis
    using sg' parse_int_part_append [OF p(1) s2, of t] parse_frac_append [OF p(2) s3, of t]
      parse_exp_append [OF p(3) assms(2), of t] p(4)
    by (simp add: parse_number_def)
qed

lemma parse_number_shape: "parse_number s = Some (v, r) \<Longrightarrow> \<exists>l. v = JNumber l"
  by (auto simp: parse_number_def split: option.splits prod.splits)

lemma parse_number_first:
  "parse_number s = Some (v, r) \<Longrightarrow> \<exists>c cs. s = c # cs \<and> (c = 45 \<or> is_digit c)"
proof -
  assume a: "parse_number s = Some (v, r)"
  show ?thesis
  proof (cases s)
    case Nil
    with a show ?thesis by (simp add: parse_number_def parse_int_part_def)
  next
    case (Cons c cs)
    show ?thesis
    proof (cases "c = 45")
      case True
      with Cons show ?thesis by simp
    next
      case False
      then obtain i s2 where "parse_int_part (c # cs) = Some (i, s2)"
        using a Cons by (auto simp: parse_number_def split: option.splits)
      then have "is_digit c"
        by (auto simp: parse_int_part_def parse_digits_def is_digit_def split: if_splits)
      with Cons show ?thesis by simp
    qed
  qed
qed

lemma keyword_append:
  "take (length k) s = k \<Longrightarrow> take (length k) (s @ t) = k \<and> drop (length k) (s @ t) = drop (length k) s @ t"
  by (metis append_eq_conv_conj append_take_drop_id append.assoc)

lemma parse_literal_append:
  assumes "parse_literal s = Some (v, r)" and "r \<noteq> [] \<or> (\<forall>l. v \<noteq> JNumber l)"
  shows "parse_literal (s @ t) = Some (v, r @ t)"
proof -
  have len: "length (str ''true'') = 4" "length (str ''false'') = 5" "length (str ''null'') = 4"
    by (simp_all add: str_def)
  consider (t) "take 4 s = str ''true''"
    | (f) "take 4 s \<noteq> str ''true''" "take 5 s = str ''false''"
    | (n) "take 4 s \<noteq> str ''true''" "take 5 s \<noteq> str ''false''" "take 4 s = str ''null''"
    | (num) "take 4 s \<noteq> str ''true''" "take 5 s \<noteq> str ''false''" "take 4 s \<noteq> str ''null''"
    by blast
  then show ?thesis
  proof cases
    case t
    then show ?thesis
      using assms(1) keyword_append [of "str ''true''" s t] by (simp add: parse_literal_def len)
  next
    case f
    have "take 4 (s @ t) \<noteq> str ''true''"
    proof
      assume "take 4 (s @ t) = str ''true''"
      moreover have "5 \<le> length s" using f(2) by (auto simp: str_def dest: arg_cong [where f = length])
      ultimately show False using f(1) by simp
    qed
    then show ?thesis
      using f assms(1) keyword_append [of "str ''false''" s t] by (simp add: parse_literal_def len)
  next
    case n
    have l4: "4 \<le> length s" using n(3) by (auto simp: str_def dest: arg_cong [where f = length])
    have "take 5 (s @ t) \<noteq> str ''false''"
    proof
      assume "take 5 (s @ t) = str ''false''"
      then have "take 4 (take 5 (s @ t)) = take 4 (str ''false'')" by simp
      then have "take 4 s = take 4 (str ''false'')" using l4 by (simp add: min_def)
      with n(3) show False by (simp add: str_def)
    qed
    then show ?thesis
      using n l4 assms(1) keyword_append [of "str ''null''" s t] by (simp add: parse_literal_def len)
  next
    case num
    then have pn: "parse_number s = Some (v, r)" using assms(1) by (simp add: parse_literal_def)
    then have r: "r \<noteq> []" using assms(2) parse_number_shape by blast
    from parse_number_first [OF pn] obtain c cs where
      s: "s = c # cs" and c: "c = 45 \<or> is_digit c" by blast
    have "take 4 (s @ t) \<noteq> str ''true''" "take 5 (s @ t) \<noteq> str ''false''"
      "take 4 (s @ t) \<noteq> str ''null''"
      using s c by (auto simp: str_def is_digit_def)
    then show ?thesis
      using parse_number_append [OF pn r, of t] by (simp add: parse_literal_def)
  qed
qed

lemma parse_shapes:
  "parse_value n s = Some (v, r) \<longrightarrow> True"
  "parse_elements n s es = Some (v, r) \<longrightarrow> (\<exists>xs. v = JArray xs)"
  "parse_members n s ms = Some (v, r) \<longrightarrow> (\<exists>kvs. v = JObject kvs)"
proof (induction n s and n s es and n s ms arbitrary: v r and v r and v r
       rule: parse_value_parse_elements_parse_members.induct)
  case (4 n s acc)
  then show ?case by (auto split: list.splits option.splits if_splits)
next
  case (6 n s acc)
  then show ?case by (auto split: list.splits option.splits if_splits)
qed simp_all

lemma parse_append:
  "parse_value n s = Some (v, r) \<longrightarrow> (r \<noteq> [] \<or> (\<forall>l. v \<noteq> JNumber l)) \<longrightarrow>
     parse_value n (s @ t) = Some (v, r @ t)"
  "parse_elements n s es = Some (v, r) \<longrightarrow> parse_elements n (s @ t) es = Some (v, r @ t)"
  "parse_members n s ms = Some (v, r) \<longrightarrow> parse_members n (s @ t) ms = Some (v, r @ t)"
proof (induction n s and n s es and n s ms arbitrary: v r and v r and v r
       rule: parse_value_parse_elements_parse_members.induct)
  case (1 s)
  then show ?case by simp
next
  case (2 n s)
  show ?case
  proof (intro impI)
    assume a: "parse_value (Suc n) s = Some (v, r)"
      and b: "r \<noteq> [] \<or> (\<forall>l. v \<noteq> JNumber l)"
    from a obtain c cs where sk: "skip_ws s = c # cs"
      by (cases "skip_ws s") auto
    then have sk': "skip_ws (s @ t) = c # cs @ t" by (simp add: skip_ws_append)
    consider (obj) "c = lbrace" | (arr) "c \<noteq> lbrace" "c = 91" | (strg) "c \<noteq> lbrace" "c \<noteq> 91" "c = dq"
      | (lit) "c \<noteq> lbrace" "c \<noteq> 91" "c \<noteq> dq" by blast
    then show "parse_value (Suc n) (s @ t) = Some (v, r @ t)"
    proof cases
      case obj
      from a sk obj obtain d ds where sk2: "skip_ws cs = d # ds"
        by (cases "skip_ws cs") auto
      then have sk2': "skip_ws (cs @ t) = d # ds @ t" by (simp add: skip_ws_append)
      show ?thesis
      proof (cases "d = rbrace")
        case True
        then show ?thesis using a sk sk' obj sk2 sk2' by simp
      next
        case False
        then have "parse_members n (d # ds) [] = Some (v, r)" using a sk obj sk2 by simp
        then have "parse_members n ((d # ds) @ t) [] = Some (v, r @ t)"
          using "2.IH"(1) [OF sk obj sk2 False] by blast
        then show ?thesis using sk' obj sk2' False by simp
      qed
    next
      case arr
      from a sk arr obtain d ds where sk2: "skip_ws cs = d # ds"
        by (cases "skip_ws cs") auto
      then have sk2': "skip_ws (cs @ t) = d # ds @ t" by (simp add: skip_ws_append)
      show ?thesis
      proof (cases "d = 93")
        case True
        then show ?thesis using a sk sk' arr sk2 sk2' by simp
      next
        case False
        then have "parse_elements n (d # ds) [] = Some (v, r)" using a sk arr sk2 by simp
        then have "parse_elements n ((d # ds) @ t) [] = Some (v, r @ t)"
          using "2.IH"(2) [OF sk arr sk2 False] by blast
        then show ?thesis using sk' arr sk2' False by simp
      qed
    next
      case strg
      then obtain w where "parse_string_chars cs = Some (w, r)" "v = JString w"
        using a sk by (auto split: option.splits)
      then show ?thesis
        using sk' strg parse_string_chars_append [of cs w r t] by simp
    next
      case lit
      then have "parse_literal (c # cs) = Some (v, r)" using a sk by simp
      then have "parse_literal ((c # cs) @ t) = Some (v, r @ t)"
        using b by (rule parse_literal_append)
      then show ?thesis using sk' lit by simp
    qed
  qed
next
  case (3 s acc)
  then show ?case by simp
next
  case (4 n s acc)
  show ?case
  proof (intro impI)
    assume a: "parse_elements (Suc n) s acc = Some (v, r)"
    then obtain x r1 where pv: "parse_value n s = Some (x, r1)"
      by (auto split: option.splits)
    from a pv obtain c cs where sk: "skip_ws r1 = c # cs"
      by (cases "skip_ws r1") auto
    then have r1: "r1 \<noteq> []" by (auto simp: skip_ws_def)
    have pv': "parse_value n (s @ t) = Some (x, r1 @ t)"
      using "4.IH"(1) pv r1 by blast
    have sk': "skip_ws (r1 @ t) = c # cs @ t" using sk by (simp add: skip_ws_append)
    show "parse_elements (Suc n) (s @ t) acc = Some (v, r @ t)"
    proof (cases "c = 44")
      case True
      then have "parse_elements n cs (acc @ [x]) = Some (v, r)" using a pv sk by simp
      then have "parse_elements n (cs @ t) (acc @ [x]) = Some (v, r @ t)"
        using "4.IH"(2) [OF pv refl sk True] by blast
      then show ?thesis using pv' sk' True by simp
    next
      case False
      then show ?thesis using a pv sk pv' sk' by (auto split: if_splits)
    qed
  qed
next
  case (5 s acc)
  then show ?case by simp
next
  case (6 n s acc)
  show ?case
  proof (intro impI)
    assume a: "parse_members (Suc n) s acc = Some (v, r)"
    then obtain c cs where sk: "skip_ws s = c # cs" by (cases "skip_ws s") auto
    then have sk': "skip_ws (s @ t) = c # cs @ t" by (simp add: skip_ws_append)
    have c: "c = dq" using a sk by (auto split: if_splits)
    from a sk c obtain k r0 where ps: "parse_string_chars cs = Some (k, r0)"
      by (auto split: option.splits)
    have ps': "parse_string_chars (cs @ t) = Some (k, r0 @ t)"
      using ps by (rule parse_string_chars_append)
    from a sk c ps obtain c2 r2 where sk2: "skip_ws r0 = c2 # r2"
      by (cases "skip_ws r0") auto
    then have sk2': "skip_ws (r0 @ t) = c2 # r2 @ t" by (simp add: skip_ws_append)
    have c2: "c2 = 58" using a sk c ps sk2 by (auto split: if_splits)
    from a sk c ps sk2 c2 obtain x r3 where pv: "parse_value n r2 = Some (x, r3)"
      by (auto split: option.splits)
    from a sk c ps sk2 c2 pv obtain c3 r4 where sk3: "skip_ws r3 = c3 # r4"
      by (cases "skip_ws r3") auto
    then have r3: "r3 \<noteq> []" by (auto simp: skip_ws_def)
    have sk3': "skip_ws (r3 @ t) = c3 # r4 @ t" using sk3 by (simp add: skip_ws_append)
    have pv': "parse_value n (r2 @ t) = Some (x, r3 @ t)"
      using "6.IH"(1) [OF sk c ps refl sk2 c2] pv r3 by blast
    show "parse_members (Suc n) (s @ t) acc = Some (v, r @ t)"
    proof (cases "c3 = 44")
      case True
      then have "parse_members n r4 (obj_put acc k x) = Some (v, r)"
        using a sk c ps sk2 c2 pv sk3 by simp
      then have "parse_members n (r4 @ t) (obj_put acc k x) = Some (v, r @ t)"
        using "6.IH"(2) [OF sk c ps refl sk2 c2 pv refl sk3 True] by blast
      then show ?thesis using sk' c ps' sk2' c2 pv' sk3' True by simp
    next
      case False
      then show ?thesis
        using a sk c ps sk2 c2 pv sk3 sk' ps' sk2' pv' sk3' by (auto split: if_splits)
    qed
  qed
qed

lemma parse_digits_no_brace:
  "parse_digits s = Some (ds, r) \<Longrightarrow> s = ds @ r \<and> lbrace \<notin> set ds"
  using parse_digits_text [of s ds r] by (auto simp: is_digit_def)

lemma parse_int_part_text:
  "parse_int_part s = Some (i, r) \<Longrightarrow> s = i @ r \<and> lbrace \<notin> set i"
  by (cases s)
     (auto simp: parse_int_part_def dest!: parse_digits_no_brace split: if_splits)

lemma parse_frac_text:
  "parse_frac s = Some (f, r) \<Longrightarrow> s = f @ r \<and> lbrace \<notin> set f"
  by (cases s)
     (auto simp: parse_frac_def dest!: parse_digits_no_brace
           split: if_splits option.splits)

lemma parse_exp_text:
  "parse_exp s = Some (e, r) \<Longrightarrow> s = e @ r \<and> lbrace \<notin> set e"
  by (cases s)
     (auto simp: parse_exp_def dest!: parse_digits_no_brace
           split: if_splits option.splits list.splits)

lemma parse_number_text:
  assumes "parse_number s = Some (v, r)"
  shows "\<exists>l. v = JNumber l \<and> s = l @ r \<and> lbrace \<notin> set l"
proof -
  obtain sign s1 where sg: "(case s of [] \<Rightarrow> ([], []) | c # cs \<Rightarrow> if c = 45 then ([c], cs) else ([], s))
                            = (sign, s1)"
    by (cases "case s of [] \<Rightarrow> ([], []) | c # cs \<Rightarrow> if c = 45 then ([c], cs) else ([], s)") auto
  from assms sg obtain i s2 f s3 e where
    p: "parse_int_part s1 = Some (i, s2)" "parse_frac s2 = Some (f, s3)"
       "parse_exp s3 = Some (e, r)" "v = JNumber (sign @ i @ f @ e)"
    by (auto simp: parse_number_def split: option.splits)
  have s1: "s1 \<noteq> []" using p(1) by (auto simp: parse_int_part_def)
  have "s = sign @ s1 \<and> lbrace \<notin> set sign"
    using sg s1 by (cases s) (auto split: if_splits)
  then show ?thesis
    using parse_int_part_text [OF p(1)] parse_frac_text [OF p(2)] parse_exp_text [OF p(3)] p(4)
    by auto
qed

lemma json_number_no_brace:
  assumes "json_parse P = Some (JNumber l)"
  shows "lbrace \<notin> set P"
proof -
  from assms obtain r where pv: "parse_value (Suc (length P)) P = Some (JNumber l, r)"
    and r: "skip_ws r = []"
    by (auto simp: json_parse_def split: option.splits if_splits)
  from pv obtain c cs where sk: "skip_ws P = c # cs" by (cases "skip_ws P") auto
  have "c \<noteq> lbrace"
  proof
    assume c: "c = lbrace"
    then obtain d ds where sk2: "skip_ws cs = d # ds" using pv sk by (cases "skip_ws cs") auto
    then have "d \<noteq> rbrace" using pv sk c by auto
    then have "parse_members (length P) (d # ds) [] = Some (JNumber l, r)"
      using pv sk c sk2 by simp
    then show False using parse_shapes(3) by blast
  qed
  moreover have "c \<noteq> 91"
  proof
    assume c: "c = 91"
    then obtain d ds where sk2: "skip_ws cs = d # ds" using pv sk by (cases "skip_ws cs") auto
    then have "d \<noteq> 93" using pv sk c by auto
    then have "parse_elements (length P) (d # ds) [] = Some (JNumber l, r)"
      using pv sk c sk2 by simp
    then show False using parse_shapes(2) by blast
  qed
  moreover have "c \<noteq> dq" using pv sk by (auto split: option.splits)
  ultimately have "parse_literal (c # cs) = Some (JNumber l, r)" using pv sk by simp
  then have "parse_number (c # cs) = Some (JNumber l, r)"
    by (auto simp: parse_literal_def split: if_splits)
  from parse_number_text [OF this] have t: "c # cs = l @ r" "lbrace \<notin> set l" by auto
  have ws: "\<not> is_json_ws lbrace" by (simp add: is_json_ws_def)
  have "lbrace \<notin> set r"
    using r ws by (auto simp: skip_ws_def dropWhile_eq_Nil_conv)
  moreover have "P = takeWhile is_json_ws P @ skip_ws P" by (simp add: skip_ws_def)
  moreover have "lbrace \<notin> set (takeWhile is_json_ws P)"
    using ws by (auto dest: set_takeWhileD)
  ultimately show ?thesis using t sk by (metis Un_iff set_append)
qed

lemma json_parse_prefix:
  assumes "json_parse P = Some a" and "lbrace \<in> set P" and "json_parse (P @ t) = Some b"
  shows "a = b"
proof -
  from assms(1) obtain r where pv: "parse_value (Suc (length P)) P = Some (a, r)"
    by (auto simp: json_parse_def split: option.splits if_splits)
  have "\<forall>l. a \<noteq> JNumber l" using assms(1,2) json_number_no_brace by blast
  then have "parse_value (Suc (length P)) (P @ t) = Some (a, r @ t)"
    using parse_append(1) pv by blast
  then have "parse_value (Suc (length P) + length t) (P @ t) = Some (a, r @ t)"
    using parse_fuel_mono(1) by blast
  then show ?thesis using assms(3) by (auto simp: json_parse_def split: if_splits)
qed

lemma parse_and_check_prefix:
  assumes "parse_and_check P = Some a" and "lbrace \<in> set P" and "parse_and_check (P @ t) = Some b"
  shows "a = b"
proof -
  have "json_parse P = Some a" "json_parse (P @ t) = Some b"
    using assms(1,3) by (auto simp: parse_and_check_def split: option.splits if_splits)
  then show ?thesis using assms(2) json_parse_prefix [of P a t b] by blast
qed

section \<open>The completion check\<close>

lemma completion_scan_append:
  "completion_scan (xs @ ys) = foldl completion_step (completion_scan xs) ys"
  by (simp add: completion_scan_def)

lemma completion_scan_in_string:
  "first_unescaped_quote e xs = None \<Longrightarrow>
   foldl completion_step (b, True, e) xs = (b, True, escape_flag e xs)"
  by (induction xs arbitrary: e) (auto simp: completion_step_def split: if_splits)

lemma completion_scan_no_brace:
  "lbrace \<notin> set xs \<Longrightarrow> rbrace \<notin> set xs \<Longrightarrow>
   fst (foldl completion_step (b, i, e) xs) = b"
  by (induction xs arbitrary: i e) (auto simp: completion_step_def Let_def)

lemma completion_step_plain:
  "c \<noteq> dq \<Longrightarrow> c \<noteq> bs \<Longrightarrow> c \<noteq> lbrace \<Longrightarrow> c \<noteq> rbrace \<Longrightarrow>
   completion_step (b, i, False) c = (b, i, False)"
  by (simp add: completion_step_def)

lemma completion_scan_plain:
  "\<forall>c \<in> set xs. c \<noteq> dq \<and> c \<noteq> bs \<and> c \<noteq> lbrace \<and> c \<noteq> rbrace \<Longrightarrow>
   foldl completion_step (b, i, False) xs = (b, i, False)"
  by (induction xs) (simp_all add: completion_step_plain)

lemma looks_complete_in_string:
  "fst (snd (completion_scan buf)) \<Longrightarrow> \<not> looks_complete buf"
  by (auto simp: looks_complete_def split: prod.splits)

lemma looks_complete_level:
  "fst (completion_scan buf) \<noteq> 0 \<Longrightarrow> \<not> looks_complete buf"
  by (auto simp: looks_complete_def split: prod.splits)

lemma looks_complete_needs_rbrace: "rbrace \<notin> set buf \<Longrightarrow> \<not> looks_complete buf"
  by (simp add: looks_complete_def split: prod.splits)

lemma completion_check_incomplete: "\<not> looks_complete buf \<Longrightarrow> completion_check buf = ([], False)"
  by (simp add: completion_check_def)

section \<open>The decoder on the encoder's text\<close>

lemma first_unescaped_quote_absent: "dq \<notin> set xs \<Longrightarrow> first_unescaped_quote e xs = None"
  by (induction xs arbitrary: e) auto

lemma escaped_no_quote:
  "first_unescaped_quote False (escapedContent v) = None
   \<and> escape_flag False (escapedContent v) = False"
proof (induction v)
  case Nil
  then show ?case by simp
next
  case (Cons c v)
  have "first_unescaped_quote False (escape_char c) = None
        \<and> escape_flag False (escape_char c) = False"
    by (simp add: escape_char_def)
  with Cons show ?case
    by (simp add: escapedContent_Cons first_unescaped_quote_append escape_flag_append)
qed

lemma first_unescaped_quote_prefix:
  "first_unescaped_quote e (xs @ ys) = None \<Longrightarrow> first_unescaped_quote e xs = None"
  by (simp add: first_unescaped_quote_append split: option.splits)

lemma indexOf_stream_open: "indexOf (stream_open @ rest) marker 0 = 1"
  by (simp add: indexOf_def stream_open_eq marker_eq)

lemma completion_scan_stream_open: "completion_scan stream_open = (1, True, False)"
  by (simp add: completion_scan_def completion_step_def stream_open_eq)

lemma length_stream_open: "length stream_open = 14"
  by (simp add: stream_open_eq)

lemma stream_close_tail: "stream_close = dq # stream_tail"
  by (simp add: stream_tail_def stream_close_def str_def)

lemma tail_no_marker: "index_from marker stream_tail 0 = -1"
  by (simp add: stream_tail_def stream_close_def str_def marker_eq)

lemma tail_split:
  \<open>\<exists>body. stream_tail = body @ [rbrace] \<and> lbrace \<notin> set body \<and> rbrace \<notin> set body\<close>
  by (rule exI [of _ \<open>str '', "currentCategory": null, "currentWord": null, "currentWordProgress": null, "exercises": null''\<close>])
     (simp add: stream_tail_def stream_close_def str_def)

lemma stream_open_braces: "rbrace \<notin> set stream_open" "lbrace \<in> set stream_open"
  by (simp_all add: stream_open_eq)

lemma wire_end_quote:
  "findEndQuote (stream_open @ escapedContent v @ stream_close) 14 14 =
     Some (14 + length (escapedContent v))"
proof -
  have "first_unescaped_quote False (escapedContent v @ dq # stream_tail) =
        Some (length (escapedContent v))"
    using escaped_no_quote [of v] by (simp add: first_unescaped_quote_append)
  then show ?thesis
    by (simp add: findEndQuote_start length_stream_open stream_close_tail)
qed

lemma wire_single_marker:
  "single_marker (stream_open @ escapedContent v @ stream_close)"
proof -
  let ?E = "escapedContent v"
  let ?S = "stream_open @ ?E @ stream_close"
  have "drop (15 + length ?E) ?S = stream_tail"
    by (simp add: length_stream_open stream_close_tail)
  moreover have "15 + length ?E \<le> length ?S" 
    by (simp add: length_stream_open stream_close_tail)
  ultimately have "indexOf ?S marker (15 + length ?E) = -1"
    using tail_no_marker index_from_shift [of marker stream_tail "15 + length ?E"]
    by (simp add: indexOf_def min_def)
  then show ?thesis
    by (simp add: single_marker_def indexOf_stream_open length_marker wire_end_quote)
qed

lemma wire_known_value:
  "known_value (stream_open @ escapedContent v @ stream_close) = escapedContent v"
proof -
  have "substring (stream_open @ escapedContent v @ stream_close) 14
          (14 + length (escapedContent v)) = escapedContent v"
    by (simp add: substring_take_drop length_stream_open)
  then show ?thesis
    by (simp add: known_value_def indexOf_stream_open length_marker current_value_def
          wire_end_quote)
qed

lemma wire_prefix_incomplete:
  assumes "n < length (stream_open @ escapedContent v @ stream_close)"
  shows "\<not> looks_complete (take n (stream_open @ escapedContent v @ stream_close))"
proof -
  let ?E = "escapedContent v"
  let ?T = "stream_tail"
  consider "n \<le> 14" | "14 < n" "n \<le> 14 + length ?E" | "14 + length ?E < n" by linarith
  then show ?thesis
  proof cases
    case 1
    then have p: "take n (stream_open @ ?E @ stream_close) = take n stream_open"
      by (simp add: length_stream_open)
    have "rbrace \<notin> set (take n stream_open)"
      using stream_open_braces(1) by (auto dest: in_set_takeD)
    then show ?thesis unfolding p by (rule looks_complete_needs_rbrace)
  next
    case 2
    then have p: "take n (stream_open @ ?E @ stream_close) = stream_open @ take (n - 14) ?E"
      by (simp add: length_stream_open)
    have "first_unescaped_quote False (take (n - 14) ?E @ drop (n - 14) ?E) = None"
      using escaped_no_quote [of v] by simp
    then have "first_unescaped_quote False (take (n - 14) ?E) = None"
      by (rule first_unescaped_quote_prefix)
    then have "fst (snd (completion_scan (stream_open @ take (n - 14) ?E)))"
      by (simp add: completion_scan_append completion_scan_stream_open completion_scan_in_string)
    then show ?thesis unfolding p by (rule looks_complete_in_string)
  next
    case 3
    let ?m = "n - 15 - length ?E"
    have lt: "?m < length ?T"
      using assms 3 by (simp add: length_stream_open stream_close_tail)
    have p: "take n (stream_open @ ?E @ stream_close) = stream_open @ ?E @ dq # take ?m ?T"
      using 3 by (simp add: length_stream_open stream_close_tail take_Cons')
    from tail_split obtain body where
      body: "?T = body @ [rbrace]" "lbrace \<notin> set body" "rbrace \<notin> set body" by blast
    have "take ?m ?T = take ?m body"
      using lt unfolding body(1) by simp
    then have nb: "lbrace \<notin> set (take ?m ?T)" "rbrace \<notin> set (take ?m ?T)"
      using body(2,3) by (auto dest: in_set_takeD)
    have "completion_scan (stream_open @ ?E) = (1, True, False)"
      using escaped_no_quote [of v]
      by (simp add: completion_scan_append completion_scan_stream_open completion_scan_in_string)
    then have "completion_scan (stream_open @ ?E @ dq # take ?m ?T) =
               foldl completion_step (1, False, False) (take ?m ?T)"
      using completion_scan_append [of "stream_open @ ?E" "dq # take ?m ?T"]
      by (simp add: completion_step_def)
    then have "fst (completion_scan (stream_open @ ?E @ dq # take ?m ?T)) = 1"
      using completion_scan_no_brace [OF nb] by simp
    then show ?thesis unfolding p by (intro looks_complete_level) simp
  qed
qed

lemma wire_looks_complete:
  "looks_complete (stream_open @ escapedContent v @ stream_close)"
proof -
  let ?E = "escapedContent v"
  have "completion_scan (stream_open @ ?E) = (1, True, False)"
    using escaped_no_quote [of v]
    by (simp add: completion_scan_append completion_scan_stream_open completion_scan_in_string)
  then have "completion_scan (stream_open @ ?E @ stream_close) =
             foldl completion_step (1, True, False) stream_close"
    using completion_scan_append [of "stream_open @ ?E" stream_close] by simp
  also have "\<dots> = (0, False, False)"
    by (simp add: stream_close_def str_def completion_step_def)
  finally show ?thesis
    using stream_open_braces(2) by (simp add: looks_complete_def stream_close_def str_def)
qed

section \<open>The text of a parsed value\<close>

lemma completion_step_shift:
  "completion_step (l, i, e) c = (l', r) \<Longrightarrow> completion_step (l + k, i, e) c = (l' + k, r)"
  by (auto simp: completion_step_def Let_def)

lemma completion_scan_shift:
  "foldl completion_step (l, i, e) cs = (l', r) \<Longrightarrow>
   foldl completion_step (l + k, i, e) cs = (l' + k, r)"
proof (induction cs arbitrary: l i e)
  case Nil
  then show ?case by simp
next
  case (Cons c cs)
  obtain l1 i1 e1 where s: "completion_step (l, i, e) c = (l1, i1, e1)"
    by (cases "completion_step (l, i, e) c") auto
  from completion_step_shift [OF s, of k] Cons.IH [of l1 i1 e1] Cons.prems s
  show ?case by simp
qed

lemma scan_from:
  "foldl completion_step (0, i, e) cs = (d, r) \<Longrightarrow> foldl completion_step (l, i, e) cs = (l + d, r)"
  using completion_scan_shift [of 0 i e cs d r l] by (simp add: add.commute)

lemma value_text_scan:
  "value_text c \<Longrightarrow> foldl completion_step (l, False, False) c = (l, False, False)"
  using scan_from [of False False c 0 "(False, False)" l] by (simp add: value_text_def)

lemma members_text_scan:
  "members_text c \<Longrightarrow> foldl completion_step (l, False, False) c = (l - 1, False, False)"
  using scan_from [of False False c "- 1" "(False, False)" l] by (simp add: members_text_def)

lemma string_text_scan:
  "string_text c \<Longrightarrow> foldl completion_step (l, True, False) c = (l, False, False)"
  using scan_from [of True False c 0 "(False, False)" l] by (simp add: string_text_def)

lemma ws_text_scan: "ws_text w \<Longrightarrow> foldl completion_step (l, i, False) w = (l, i, False)"
  by (rule completion_scan_plain) (auto simp: ws_text_def list_all_iff is_json_ws_def)

lemma ws_text_lex: "ws_text w \<Longrightarrow> outside q \<Longrightarrow> outside (foldl lex_step q w)"
proof (induction w arbitrary: q)
  case Nil
  then show ?case by simp
next
  case (Cons c w)
  then have "lex_step q c = Outside"
    by (cases q) (auto simp: ws_text_def is_json_ws_def)
  then show ?case using Cons by (simp add: ws_text_def)
qed

lemma ws_text_lex_Outside [simp]: "ws_text w \<Longrightarrow> foldl lex_step Outside w = Outside"
  by (induction w) (auto simp: ws_text_def is_json_ws_def)

lemma ws_text_takeWhile [simp]: "ws_text (takeWhile is_json_ws s)"
  by (auto simp: ws_text_def list_all_iff dest: set_takeWhileD)

lemma skip_ws_text: "skip_ws s = r \<Longrightarrow> \<exists>w. s = w @ r \<and> ws_text w"
  by (rule exI [of _ "takeWhile is_json_ws s"]) (auto simp: skip_ws_def)

lemma skip_ws_Nil_text: "skip_ws s = [] \<Longrightarrow> ws_text s"
  by (auto simp: skip_ws_def ws_text_def list_all_iff dropWhile_eq_Nil_conv)

lemma braces_no_ws [simp]: "ws_text w \<Longrightarrow> lbrace \<notin> set w \<and> rbrace \<notin> set w"
  by (auto simp: ws_text_def list_all_iff is_json_ws_def)

lemma broken_stays [simp]: "foldl lex_step Broken s = Broken"
  by (induction s) simp_all

lemma marker_breaks: "foldl lex_step q marker = Broken"
  by (cases q) (simp_all add: marker_eq)

lemma hex4_text:
  "hex4 s = Some (u, r) \<Longrightarrow>
     \<exists>h1 h2 h3 h4. s = h1 # h2 # h3 # h4 # r \<and> (\<forall>h \<in> set [h1, h2, h3, h4]. h \<noteq> dq \<and> h \<noteq> bs)"
  by (auto simp: hex4_def hexval_def split: list.splits option.splits if_splits)

lemma string_text_quote [simp]: "string_text [dq]"
  by (simp add: string_text_def completion_step_def)

lemma string_text_plain: "c \<noteq> dq \<Longrightarrow> c \<noteq> bs \<Longrightarrow> string_text k \<Longrightarrow> string_text (c # k)"
  by (simp add: string_text_def completion_step_def)

lemma string_text_escape: "string_text k \<Longrightarrow> string_text (bs # e # k)"
  by (simp add: string_text_def completion_step_def)

lemma parse_string_chars_text:
  "parse_string_chars s = Some (v, r) \<Longrightarrow> \<exists>k. s = k @ r \<and> string_text k"
proof (induction s arbitrary: v r rule: length_induct)
  case (1 s)
  note ih = "1.IH" [rule_format]
  show ?case
  proof (cases s)
    case Nil
    with 1 show ?thesis by simp
  next
    case (Cons c xs)
    show ?thesis
    proof (cases "c = dq")
      case True
      then have "s = [dq] @ r" using 1(2) Cons by (simp add: parse_string_chars_Cons)
      then show ?thesis using string_text_quote by blast
    next
      case ndq: False
      show ?thesis
      proof (cases "c = bs")
        case True
        then obtain e cs where xs: "xs = e # cs"
          using 1(2) Cons by (cases xs) (auto simp: parse_string_chars_Cons)
        show ?thesis
        proof (cases "e = 117")
          case u: True
          then obtain w r0 v0 where h: "hex4 cs = Some (w, r0)"
            and p: "parse_string_chars r0 = Some (v0, r)"
            using 1(2) Cons xs True
            by (auto simp: parse_string_chars_Cons split: option.splits)
          from hex4_text [OF h] obtain h1 h2 h3 h4 where
            cs: "cs = h1 # h2 # h3 # h4 # r0"
            and hx: "\<forall>h \<in> set [h1, h2, h3, h4]. h \<noteq> dq \<and> h \<noteq> bs" by blast
          have "length r0 < length s" using cs Cons xs by simp
          from ih [OF this p] obtain k where k: "r0 = k @ r" "string_text k" by blast
          have "string_text (bs # e # h1 # h2 # h3 # h4 # k)"
            using hx k(2) by (intro string_text_escape string_text_plain) simp_all
          moreover have "s = (bs # e # h1 # h2 # h3 # h4 # k) @ r"
            using Cons xs cs k(1) True by simp
          ultimately show ?thesis by blast
        next
          case nu: False
          then obtain ch v0 where p: "parse_string_chars cs = Some (v0, r)"
            using 1(2) Cons xs True
            by (auto simp: parse_string_chars_Cons split: option.splits)
          have "length cs < length s" using Cons xs by simp
          from ih [OF this p] obtain k where k: "cs = k @ r" "string_text k" by blast
          have "string_text (bs # e # k)" using k(2) by (rule string_text_escape)
          moreover have "s = (bs # e # k) @ r" using Cons xs k(1) True by simp
          ultimately show ?thesis by blast
        qed
      next
        case nbs: False
        then obtain v0 where p: "parse_string_chars xs = Some (v0, r)"
          using 1(2) Cons ndq
          by (auto simp: parse_string_chars_Cons split: option.splits if_splits)
        have "length xs < length s" using Cons by simp
        from ih [OF this p] obtain k where k: "xs = k @ r" "string_text k" by blast
        have "string_text (c # k)" using ndq nbs k(2) by (rule string_text_plain)
        moreover have "s = (c # k) @ r" using Cons k(1) by simp
        ultimately show ?thesis by blast
      qed
    qed
  qed
qed

lemma quiet_lex: "list_all quiet t \<Longrightarrow> foldl lex_step Outside t = Outside"
  by (induction t) (auto simp: quiet_def)

lemma value_text_quiet: "list_all quiet t \<Longrightarrow> value_text t"
  unfolding value_text_def
  by (simp add: quiet_lex) (rule completion_scan_plain, auto simp: list_all_iff quiet_def)

lemma parse_digits_quiet:
  "parse_digits s = Some (ds, r) \<Longrightarrow> s = ds @ r \<and> list_all quiet ds"
  using parse_digits_text [of s ds r] by (auto simp: is_digit_def quiet_def list_all_iff)

lemma parse_int_part_quiet:
  "parse_int_part s = Some (i, r) \<Longrightarrow> s = i @ r \<and> list_all quiet i"
  by (cases s)
     (auto simp: parse_int_part_def quiet_def dest!: parse_digits_quiet split: if_splits)

lemma parse_frac_quiet:
  "parse_frac s = Some (f, r) \<Longrightarrow> s = f @ r \<and> list_all quiet f"
  by (cases s)
     (auto simp: parse_frac_def quiet_def dest!: parse_digits_quiet
           split: if_splits option.splits)

lemma parse_exp_quiet:
  "parse_exp s = Some (e, r) \<Longrightarrow> s = e @ r \<and> list_all quiet e"
  by (cases s)
     (auto simp: parse_exp_def quiet_def dest!: parse_digits_quiet
           split: if_splits option.splits list.splits)

lemma parse_number_quiet:
  assumes "parse_number s = Some (v, r)"
  shows "\<exists>l. s = l @ r \<and> list_all quiet l"
proof -
  obtain sign s1 where sg: "(case s of [] \<Rightarrow> ([], []) | c # cs \<Rightarrow> if c = 45 then ([c], cs) else ([], s))
                            = (sign, s1)"
    by (cases "case s of [] \<Rightarrow> ([], []) | c # cs \<Rightarrow> if c = 45 then ([c], cs) else ([], s)") auto
  from assms sg obtain i s2 f s3 e where
    p: "parse_int_part s1 = Some (i, s2)" "parse_frac s2 = Some (f, s3)"
       "parse_exp s3 = Some (e, r)"
    by (auto simp: parse_number_def split: option.splits)
  have s1: "s1 \<noteq> []" using p(1) by (auto simp: parse_int_part_def)
  have "s = sign @ s1 \<and> list_all quiet sign"
    using sg s1 by (cases s) (auto simp: quiet_def split: if_splits)
  then have "s = (sign @ i @ f @ e) @ r \<and> list_all quiet (sign @ i @ f @ e)"
    using parse_int_part_quiet [OF p(1)] parse_frac_quiet [OF p(2)] parse_exp_quiet [OF p(3)]
    by auto
  then show ?thesis by blast
qed

lemma keyword_text: "take n s = k \<Longrightarrow> s = k @ drop n s"
  by (metis append_take_drop_id)

lemma parse_literal_quiet:
  assumes "parse_literal s = Some (v, r)"
  shows "\<exists>l. s = l @ r \<and> list_all quiet l"
proof -
  have q: "list_all quiet (str ''true'')" "list_all quiet (str ''false'')"
    "list_all quiet (str ''null'')"
    by (simp_all add: str_def quiet_def)
  consider (t) "take 4 s = str ''true''"
    | (f) "take 4 s \<noteq> str ''true''" "take 5 s = str ''false''"
    | (n) "take 4 s \<noteq> str ''true''" "take 5 s \<noteq> str ''false''" "take 4 s = str ''null''"
    | (num) "take 4 s \<noteq> str ''true''" "take 5 s \<noteq> str ''false''" "take 4 s \<noteq> str ''null''"
    by blast
  then show ?thesis
  proof cases
    case t
    then have "r = drop 4 s" using assms by (simp add: parse_literal_def)
    then show ?thesis using keyword_text [OF t] q(1) by blast
  next
    case f
    then have "r = drop 5 s" using assms by (simp add: parse_literal_def)
    then show ?thesis using keyword_text [OF f(2)] q(2) by blast
  next
    case n
    then have "r = drop 4 s" using assms by (simp add: parse_literal_def)
    then show ?thesis using keyword_text [OF n(3)] q(3) by blast
  next
    case num
    then have "parse_number s = Some (v, r)" using assms by (simp add: parse_literal_def)
    then show ?thesis by (rule parse_number_quiet)
  qed
qed

lemma outside_separator:
  "outside q \<Longrightarrow> c \<noteq> dq \<Longrightarrow> c \<noteq> 58 \<Longrightarrow> c \<noteq> 114 \<Longrightarrow> lex_step q c = Outside"
  by (cases q) simp_all

lemma value_text_ws_pre: "ws_text w \<Longrightarrow> value_text c \<Longrightarrow> value_text (w @ c)"
  by (auto simp: value_text_def ws_text_scan)

lemma value_text_ws_post: "value_text c \<Longrightarrow> ws_text w \<Longrightarrow> value_text (c @ w)"
  by (auto simp: value_text_def ws_text_scan ws_text_lex)

lemma value_text_string: "string_text k \<Longrightarrow> value_text (dq # k)"
  by (simp add: value_text_def string_text_def completion_step_def)

lemma value_text_empty_object: "ws_text w \<Longrightarrow> value_text (lbrace # w @ [rbrace])"
  by (simp add: value_text_def ws_text_scan completion_step_def)

lemma value_text_object: "ws_text w \<Longrightarrow> members_text m \<Longrightarrow> value_text (lbrace # w @ m)"
  using members_text_scan [of m 1]
  by (simp add: value_text_def ws_text_scan completion_step_def members_text_def)

lemma value_text_empty_array: "ws_text w \<Longrightarrow> value_text (91 # w @ [93])"
  by (simp add: value_text_def ws_text_scan completion_step_def)

lemma value_text_array: "ws_text w \<Longrightarrow> value_text e \<Longrightarrow> value_text (91 # w @ e)"
  by (auto simp: value_text_def ws_text_scan completion_step_def)

lemma value_text_elements:
  assumes "value_text v" and "ws_text w" and "value_text e"
  shows "value_text (v @ w @ 44 # e)"
proof -
  have "foldl completion_step (0, False, False) (v @ w @ 44 # e) = (0, False, False)"
    using assms by (simp add: value_text_scan ws_text_scan completion_step_def)
  moreover have "outside (foldl lex_step Outside (v @ w @ 44 # e))"
    if "outside (foldl lex_step Outside v)" "outside (foldl lex_step Outside e)"
    using that ws_text_lex [OF assms(2) that(1)] by (simp add: outside_separator)
  ultimately show ?thesis using assms(1,3) by (auto simp: value_text_def)
qed

lemma value_text_last_element:
  assumes "value_text v" and "ws_text w"
  shows "value_text (v @ w @ [93])"
proof -
  have "foldl completion_step (0, False, False) (v @ w @ [93]) = (0, False, False)"
    using assms by (simp add: value_text_scan ws_text_scan completion_step_def)
  moreover have "outside (foldl lex_step Outside (v @ w @ [93]))"
    if "outside (foldl lex_step Outside v)"
    using ws_text_lex [OF assms(2) that] by (simp add: outside_separator)
  ultimately show ?thesis using assms(1) by (auto simp: value_text_def)
qed

lemma members_text_more:
  assumes "ws_text w0" and "string_text k" and "ws_text w1" and "value_text v"
    and "ws_text w2" and "members_text m"
  shows "members_text (w0 @ dq # k @ w1 @ 58 # v @ w2 @ 44 # m)"
  using assms
  by (simp add: members_text_def [of "_ @ _"] ws_text_scan string_text_scan value_text_scan
        members_text_scan completion_step_def)
     (simp add: members_text_def)

lemma members_text_last:
  assumes "ws_text w0" and "string_text k" and "ws_text w1" and "value_text v"
    and "ws_text w2"
  shows "members_text (w0 @ dq # k @ w1 @ 58 # v @ w2 @ [rbrace])"
  using assms
  by (simp add: members_text_def ws_text_scan string_text_scan value_text_scan
        completion_step_def)

lemma parse_text:
  "parse_value n s = Some (v, r) \<longrightarrow> (\<exists>c. s = c @ r \<and> value_text c)"
  "parse_elements n s es = Some (v, r) \<longrightarrow> (\<exists>c. s = c @ r \<and> value_text c)"
  "parse_members n s ms = Some (v, r) \<longrightarrow> (\<exists>c. s = c @ r \<and> members_text c)"
proof (induction n s and n s es and n s ms arbitrary: v r and v r and v r
       rule: parse_value_parse_elements_parse_members.induct)
  case (1 s)
  then show ?case by simp
next
  case (2 n s)
  show ?case
  proof (intro impI)
    assume a: "parse_value (Suc n) s = Some (v, r)"
    from a obtain c cs where sk: "skip_ws s = c # cs"
      by (cases "skip_ws s") auto
    from skip_ws_text [OF sk] obtain w where w: "s = w @ c # cs" "ws_text w" by blast
    have "\<exists>t. c # cs = t @ r \<and> value_text t"
    proof -
      consider (obj) "c = lbrace" | (arr) "c \<noteq> lbrace" "c = 91"
        | (strg) "c \<noteq> lbrace" "c \<noteq> 91" "c = dq"
        | (lit) "c \<noteq> lbrace" "c \<noteq> 91" "c \<noteq> dq" by blast
      then show ?thesis
      proof cases
        case obj
        from a sk obj obtain d ds where sk2: "skip_ws cs = d # ds"
          by (cases "skip_ws cs") auto
        from skip_ws_text [OF sk2] obtain w2 where w2: "cs = w2 @ d # ds" "ws_text w2" by blast
        show ?thesis
        proof (cases "d = rbrace")
          case True
          then have "r = ds" using a sk obj sk2 by simp
          then have "c # cs = (lbrace # w2 @ [rbrace]) @ r" using obj w2(1) True by simp
          then show ?thesis using value_text_empty_object [OF w2(2)] by blast
        next
          case False
          then have "parse_members n (d # ds) [] = Some (v, r)" using a sk obj sk2 by simp
          then obtain m where m: "d # ds = m @ r" "members_text m"
            using "2.IH"(1) [OF sk obj sk2 False] by blast
          have "c # cs = (lbrace # w2 @ m) @ r" using obj w2(1) m(1) by simp
          then show ?thesis using value_text_object [OF w2(2) m(2)] by blast
        qed
      next
        case arr
        from a sk arr obtain d ds where sk2: "skip_ws cs = d # ds"
          by (cases "skip_ws cs") auto
        from skip_ws_text [OF sk2] obtain w2 where w2: "cs = w2 @ d # ds" "ws_text w2" by blast
        show ?thesis
        proof (cases "d = 93")
          case True
          then have "r = ds" using a sk arr sk2 by simp
          then have "c # cs = (91 # w2 @ [93]) @ r" using arr w2(1) True by simp
          then show ?thesis using value_text_empty_array [OF w2(2)] by blast
        next
          case False
          then have "parse_elements n (d # ds) [] = Some (v, r)" using a sk arr sk2 by simp
          then obtain e where e: "d # ds = e @ r" "value_text e"
            using "2.IH"(2) [OF sk arr sk2 False] by blast
          have "c # cs = (91 # w2 @ e) @ r" using arr w2(1) e(1) by simp
          then show ?thesis using value_text_array [OF w2(2) e(2)] by blast
        qed
      next
        case strg
        then obtain x where "parse_string_chars cs = Some (x, r)"
          using a sk by (auto split: option.splits)
        from parse_string_chars_text [OF this] obtain k where k: "cs = k @ r" "string_text k"
          by blast
        have "c # cs = (dq # k) @ r" using strg k(1) by simp
        then show ?thesis using value_text_string [OF k(2)] by blast
      next
        case lit
        then have "parse_literal (c # cs) = Some (v, r)" using a sk by simp
        from parse_literal_quiet [OF this] obtain l where "c # cs = l @ r" "list_all quiet l"
          by blast
        then show ?thesis using value_text_quiet by blast
      qed
    qed
    then obtain t where t: "c # cs = t @ r" "value_text t" by blast
    have "s = (w @ t) @ r" using w(1) t(1) by simp
    then show "\<exists>c. s = c @ r \<and> value_text c"
      using value_text_ws_pre [OF w(2) t(2)] by blast
  qed
next
  case (3 s acc)
  then show ?case by simp
next
  case (4 n s acc)
  show ?case
  proof (intro impI)
    assume a: "parse_elements (Suc n) s acc = Some (v, r)"
    then obtain x r1 where pv: "parse_value n s = Some (x, r1)"
      by (auto split: option.splits)
    then obtain cv where cv: "s = cv @ r1" "value_text cv" using "4.IH"(1) by blast
    from a pv obtain c cs where sk: "skip_ws r1 = c # cs"
      by (cases "skip_ws r1") auto
    from skip_ws_text [OF sk] obtain w where w: "r1 = w @ c # cs" "ws_text w" by blast
    show "\<exists>c. s = c @ r \<and> value_text c"
    proof (cases "c = 44")
      case True
      then have "parse_elements n cs (acc @ [x]) = Some (v, r)" using a pv sk by simp
      then obtain e where e: "cs = e @ r" "value_text e"
        using "4.IH"(2) [OF pv refl sk True] by blast
      have "s = (cv @ w @ 44 # e) @ r" using cv(1) w(1) e(1) True by simp
      then show ?thesis using value_text_elements [OF cv(2) w(2) e(2)] by blast
    next
      case False
      then have c: "c = 93" and "r = cs" using a pv sk by (auto split: if_splits)
      then have "s = (cv @ w @ [93]) @ r" using cv(1) w(1) by simp
      then show ?thesis using value_text_last_element [OF cv(2) w(2)] by blast
    qed
  qed
next
  case (5 s acc)
  then show ?case by simp
next
  case (6 n s acc)
  show ?case
  proof (intro impI)
    assume a: "parse_members (Suc n) s acc = Some (v, r)"
    then obtain c cs where sk: "skip_ws s = c # cs" by (cases "skip_ws s") auto
    have c: "c = dq" using a sk by (auto split: if_splits)
    from skip_ws_text [OF sk] obtain w0 where w0: "s = w0 @ dq # cs" "ws_text w0"
      using c by blast
    from a sk c obtain k r0 where ps: "parse_string_chars cs = Some (k, r0)"
      by (auto split: option.splits)
    from parse_string_chars_text [OF ps] obtain kt where kt: "cs = kt @ r0" "string_text kt"
      by blast
    from a sk c ps obtain c2 r2 where sk2: "skip_ws r0 = c2 # r2"
      by (cases "skip_ws r0") auto
    have c2: "c2 = 58" using a sk c ps sk2 by (auto split: if_splits)
    from skip_ws_text [OF sk2] obtain w1 where w1: "r0 = w1 @ 58 # r2" "ws_text w1"
      using c2 by blast
    from a sk c ps sk2 c2 obtain x r3 where pv: "parse_value n r2 = Some (x, r3)"
      by (auto split: option.splits)
    then obtain cv where cv: "r2 = cv @ r3" "value_text cv"
      using "6.IH"(1) [OF sk c ps refl sk2 c2] by blast
    from a sk c ps sk2 c2 pv obtain c3 r4 where sk3: "skip_ws r3 = c3 # r4"
      by (cases "skip_ws r3") auto
    from skip_ws_text [OF sk3] obtain w2 where w2: "r3 = w2 @ c3 # r4" "ws_text w2" by blast
    show "\<exists>c. s = c @ r \<and> members_text c"
    proof (cases "c3 = 44")
      case True
      then have "parse_members n r4 (obj_put acc k x) = Some (v, r)"
        using a sk c ps sk2 c2 pv sk3 by simp
      then obtain m where m: "r4 = m @ r" "members_text m"
        using "6.IH"(2) [OF sk c ps refl sk2 c2 pv refl sk3 True] by blast
      have "s = (w0 @ dq # kt @ w1 @ 58 # cv @ w2 @ 44 # m) @ r"
        using w0(1) kt(1) w1(1) cv(1) w2(1) m(1) True by simp
      then show ?thesis
        using members_text_more [OF w0(2) kt(2) w1(2) cv(2) w2(2) m(2)] by blast
    next
      case False
      then have c3: "c3 = rbrace" and "r = r4"
        using a sk c ps sk2 c2 pv sk3 by (auto split: if_splits)
      then have "s = (w0 @ dq # kt @ w1 @ 58 # cv @ w2 @ [rbrace]) @ r"
        using w0(1) kt(1) w1(1) cv(1) w2(1) by simp
      then show ?thesis
        using members_text_last [OF w0(2) kt(2) w1(2) cv(2) w2(2)] by blast
    qed
  qed
qed

lemma json_parse_text: "json_parse S = Some v \<Longrightarrow> value_text S"
proof -
  assume "json_parse S = Some v"
  then obtain r where pv: "parse_value (Suc (length S)) S = Some (v, r)"
    and r: "skip_ws r = []"
    by (auto simp: json_parse_def split: option.splits if_splits)
  from parse_text(1) pv obtain c where c: "S = c @ r" "value_text c" by blast
  show ?thesis
    using value_text_ws_post [OF c(2) skip_ws_Nil_text [OF r]] c(1) by simp
qed

lemma occurs_at_split:
  "pat \<noteq> [] \<Longrightarrow> occurs_at pat s j \<Longrightarrow> \<exists>a b. s = a @ pat @ b"
proof -
  assume "pat \<noteq> []" and o: "occurs_at pat s j"
  have "drop j s = pat @ drop (length pat) (drop j s)"
    using o by (metis occurs_at_def append_take_drop_id)
  then have "s = take j s @ pat @ drop (length pat) (drop j s)"
    by (metis append_take_drop_id)
  then show ?thesis by blast
qed

lemma value_text_marker:
  assumes "value_text S"
  shows "looks_complete S \<or> indexOf S marker 0 = - 1"
proof (cases "lbrace \<in> set S \<and> rbrace \<in> set S")
  case True
  then show ?thesis
    using assms by (simp add: value_text_def looks_complete_def completion_scan_def)
next
  case False
  then have o: "outside (foldl lex_step Outside S)" using assms by (auto simp: value_text_def)
  have "\<not> occurs_at marker S j" for j
  proof
    assume "occurs_at marker S j"
    from occurs_at_split [OF marker_nonempty this] obtain a b where "S = a @ marker @ b" by blast
    then have "foldl lex_step Outside S = Broken" by (simp add: marker_breaks)
    with o show False by simp
  qed
  then show ?thesis by (simp add: indexOf_none_iff)
qed

lemma accepted_single_marker:
  "parse_and_check S = Some obj \<Longrightarrow> looks_complete S \<or> single_marker S"
proof -
  assume "parse_and_check S = Some obj"
  then have "json_parse S = Some obj"
    by (auto simp: parse_and_check_def split: option.splits if_splits)
  from value_text_marker [OF json_parse_text [OF this]] show ?thesis
    by (auto simp: single_marker_def)
qed

section \<open>Runs that end with the completion check\<close>

lemma final_object_deltas [simp]: "final_object (map Delta ds @ evs) = final_object evs"
  by (induction ds) simp_all

lemma run_to_completion:
  assumes "\<forall>n < length S. completion_check (take n S) = ([], False)"
    and "completion_check S = (fin, True)"
    and "fullStreamContent st @ concat cs = S"
    and "length (fullStreamContent st) < length S"
  shows "\<exists>m ds. m \<le> length cs \<and> parseLoop st cs = step_events st (take m cs)
           \<and> parseLoop st cs = map Delta ds @ fin
           \<and> fullStreamContent st @ concat (take m cs) = S"
  using assms(3,4)
proof (induction cs arbitrary: st)
  case Nil
  then show ?case by simp
next
  case (Cons c cs)
  let ?B = "fullStreamContent st @ c"
  let ?st1 = "find_key (st\<lparr>fullStreamContent := ?B\<rparr>)"
  let ?st' = "fst (stream_value ?st1)"
  let ?sv = "snd (stream_value ?st1)"
  have step: "consume st c = (?st', ?sv @ fst (completion_check ?B), snd (completion_check ?B))"
    by (simp add: consume_alt Let_def)
  obtain ds0 where ds0: "?sv = map Delta ds0"
    using stream_value_events [of ?st1] by (metis list.simps(8,9))
  have S: "S = ?B @ concat cs" using Cons.prems(1) by simp
  show ?case
  proof (cases "concat cs = []")
    case True
    then have "?B = S" using S by simp
    then have cc: "completion_check ?B = (fin, True)" using assms(2) by simp
    have "parseLoop st (c # cs) = ?sv @ fin" by (simp add: step cc)
    moreover have "step_events st (take 1 (c # cs)) = ?sv @ fin" by (simp add: step cc)
    ultimately show ?thesis
      using ds0 \<open>?B = S\<close>
      by (intro exI [of _ 1] exI [of _ ds0]) simp
  next
    case False
    then have lt: "length ?B < length S" using S by simp
    have "take (length ?B) S = ?B" using S by simp
    then have cc: "completion_check ?B = ([], False)" using assms(1) lt by metis
    have b': "fullStreamContent ?st' @ concat cs = S" using S by simp
    have l': "length (fullStreamContent ?st') < length S" using lt by simp
    from Cons.IH [OF b' l'] obtain m ds where
      m: "m \<le> length cs" "parseLoop ?st' cs = step_events ?st' (take m cs)"
        "parseLoop ?st' cs = map Delta ds @ fin"
        "fullStreamContent ?st' @ concat (take m cs) = S" by blast
    have "parseLoop st (c # cs) = step_events st (take (Suc m) (c # cs))"
      using m(2) by (simp add: step cc)
    moreover have "parseLoop st (c # cs) = map Delta (ds0 @ ds) @ fin"
      using m(3) ds0 by (simp add: step cc)
    moreover have "fullStreamContent st @ concat (take (Suc m) (c # cs)) = S"
      using m(4) by simp
    ultimately show ?thesis
      using m(1) by (intro exI [of _ "Suc m"] exI [of _ "ds0 @ ds"]) simp
  qed
qed

lemma wire_run:
  assumes "\<forall>c \<in> set v. json_safe c"
    and "concat chunks = stream_open @ escapedContent v @ stream_close"
  shows "\<exists>ds. processStream (Some chunks) =
                 StreamStart # map Delta ds @ [Complete (wire_object v)]
              \<and> concat ds = escapedContent v"
proof -
  let ?S = "stream_open @ escapedContent v @ stream_close"
  have inc: "\<forall>n < length ?S. completion_check (take n ?S) = ([], False)"
    using wire_prefix_incomplete [of _ v] by (simp add: completion_check_incomplete)
  have fin: "completion_check ?S = ([Complete (wire_object v)], True)"
    using wire_looks_complete [of v] parse_and_check_wire [OF assms(1)]
    by (simp add: completion_check_def)
  have b: "fullStreamContent initial_state @ concat chunks = ?S" using assms(2) by simp
  have l: "length (fullStreamContent initial_state) < length ?S"
    by (simp add: length_stream_open)
  from run_to_completion [OF inc fin b l] obtain m ds where
    m: "parseLoop initial_state chunks = step_events initial_state (take m chunks)"
      "parseLoop initial_state chunks = map Delta ds @ [Complete (wire_object v)]"
      "concat (take m chunks) = ?S" by auto
  have "single_marker (concat (take m chunks))"
    unfolding m(3) by (rule wire_single_marker)
  then have kv: "concat (deltas_of (step_events initial_state (take m chunks))) =
             known_value (concat (take m chunks))"
    by (rule step_events_view)
  have "step_events initial_state (take m chunks) =
                 map Delta ds @ [Complete (wire_object v)]"
    using m(1,2) by simp
  then have "deltas_of (step_events initial_state (take m chunks)) = ds"
    by simp
  then have "concat ds = escapedContent v"
    using kv by (simp add: m(3) wire_known_value)
  then show ?thesis using m(2) by (intro exI [of _ ds]) (simp add: processStream_def)
qed

lemma escapedContent_plain:
  "\<forall>c \<in> set v. c \<noteq> bs \<and> c \<noteq> dq \<and> c \<noteq> 10 \<and> c \<noteq> 13 \<and> c \<noteq> 9 \<Longrightarrow> escapedContent v = v"
  by (induction v) (simp_all add: escapedContent_Cons escape_char_def)

section \<open>A value that never closes\<close>

lemma open_value_check:
  assumes "dq \<notin> set B"
  shows "completion_check (stream_open @ B) = ([], False)"
proof -
  have "first_unescaped_quote False B = None"
    using assms by (rule first_unescaped_quote_absent)
  then have "fst (snd (completion_scan (stream_open @ B)))"
    by (simp add: completion_scan_append completion_scan_stream_open completion_scan_in_string)
  then show ?thesis
    by (intro completion_check_incomplete looks_complete_in_string)
qed

lemma open_value_scan:
  assumes "dq \<notin> set B"
  shows "findEndQuote (stream_open @ B) 14 14 = None"
    and "current_value (stream_open @ B) 14 = B"
proof -
  show "findEndQuote (stream_open @ B) 14 14 = None"
    using first_unescaped_quote_absent [OF assms]
    by (simp add: findEndQuote_start length_stream_open)
  then show "current_value (stream_open @ B) 14 = B"
    by (simp add: current_value_def length_stream_open)
qed

lemma open_value_step:
  assumes "dq \<notin> set B" and "dq \<notin> set c"
  shows "consume \<lparr> fullStreamContent = stream_open @ B, isInsideResponseValue = True,
                   responseValueStartIndex = 14, responseValueSentSoFar = B \<rparr> c =
           (\<lparr> fullStreamContent = stream_open @ B @ c, isInsideResponseValue = True,
              responseValueStartIndex = 14, responseValueSentSoFar = B @ c \<rparr>,
            (if c = [] then [] else [Delta c]), False)"
proof -
  let ?st = "\<lparr> fullStreamContent = stream_open @ B, isInsideResponseValue = True,
               responseValueStartIndex = 14, responseValueSentSoFar = B \<rparr>"
  have q: "dq \<notin> set (B @ c)" using assms by simp
  have k: "key_search ?st (fullStreamContent ?st @ c) = Some 14"
    by (simp add: key_search_def)
  have i: "isInsideResponseValue ?st \<longrightarrow> 0 \<le> responseValueStartIndex ?st" by simp
  show ?thesis
    unfolding consume_key [OF k i]
    using open_value_scan [OF q] open_value_check [OF q]
    by (simp add: Let_def)
qed

lemma open_value_run:
  assumes "dq \<notin> set B" and "dq \<notin> set (concat cs)"
  shows "parseLoop \<lparr> fullStreamContent = stream_open @ B, isInsideResponseValue = True,
                     responseValueStartIndex = 14, responseValueSentSoFar = B \<rparr> cs =
           map Delta (filter (\<lambda>c. c \<noteq> []) cs) @ [Error UnterminatedValue]"
  using assms
proof (induction cs arbitrary: B)
  case Nil
  then show ?case by (simp add: on_done_def)
next
  case (Cons c cs)
  have c: "dq \<notin> set c" and cs: "dq \<notin> set (concat cs)" using Cons.prems(2) by simp_all
  have Bc: "dq \<notin> set (B @ c)" using Cons.prems(1) c by simp
  show ?case
    using Cons.IH [OF Bc cs] by (simp add: open_value_step [OF Cons.prems(1) c])
qed

lemma open_value_first:
  assumes "dq \<notin> set r"
  shows "consume initial_state (stream_open @ r) =
           (\<lparr> fullStreamContent = stream_open @ r, isInsideResponseValue = True,
              responseValueStartIndex = 14, responseValueSentSoFar = r \<rparr>,
            (if r = [] then [] else [Delta r]), False)"
proof -
  have k: "key_search initial_state (fullStreamContent initial_state @ stream_open @ r) = Some 14"
    by (simp add: key_search_def indexOf_stream_open length_marker)
  have i: "isInsideResponseValue initial_state \<longrightarrow> 0 \<le> responseValueStartIndex initial_state"
    by simp
  show ?thesis
    unfolding consume_key [OF k i]
    using open_value_scan [OF assms] open_value_check [OF assms]
    by (simp add: Let_def)
qed

section \<open>The end-to-end scenario\<close>

lemma closing_step:
  assumes "dq \<notin> set B" and "bs \<notin> set B"
  shows "consume \<lparr> fullStreamContent = stream_open @ B, isInsideResponseValue = True,
                   responseValueStartIndex = 14, responseValueSentSoFar = B \<rparr> (dq # t) =
           (\<lparr> fullStreamContent = stream_open @ B @ dq # t, isInsideResponseValue = False,
              responseValueStartIndex = 15 + int (length B), responseValueSentSoFar = B \<rparr>,
            fst (completion_check (stream_open @ B @ dq # t)),
            snd (completion_check (stream_open @ B @ dq # t)))"
proof -
  let ?st = "\<lparr> fullStreamContent = stream_open @ B, isInsideResponseValue = True,
               responseValueStartIndex = 14, responseValueSentSoFar = B \<rparr>"
  have k: "key_search ?st (fullStreamContent ?st @ dq # t) = Some 14"
    by (simp add: key_search_def)
  have i: "isInsideResponseValue ?st \<longrightarrow> 0 \<le> responseValueStartIndex ?st" by simp
  have "escape_flag False B = False"
    using assms(2) by (induction B) auto
  then have f: "findEndQuote (stream_open @ B @ dq # t) 14 14 = Some (14 + length B)"
    using first_unescaped_quote_absent [OF assms(1), of False]
    by (simp add: findEndQuote_start length_stream_open first_unescaped_quote_append)
  have "substring (stream_open @ B @ dq # t) 14 (14 + length B) = B"
    by (simp add: substring_take_drop length_stream_open)
  then have cv: "current_value (stream_open @ B @ dq # t) 14 = B"
    using f by (simp add: current_value_def)
  show ?thesis
    unfolding consume_key [OF k i] using f cv by (simp add: Let_def)
qed

lemma scenario_writes:
  "session_continue_writes
     [str ''Hel'', str ''lo, '', str ''c'' @ [243] @ str ''mo est'' @ [225] @ str ''s?''] Done =
   [stream_open, str ''Hel'', str ''lo, '', str ''c'' @ [243] @ str ''mo est'' @ [225] @ str ''s?'',
    stream_close]"
  by (simp add: session_continue_writes_eq escapedContent_chars escape_char_def str_def)

lemma scenario_deltas:
  assumes "completion_check
           (stream_open @ (str ''Hello, c'' @ [243] @ str ''mo est'' @ [225] @ str ''s?'') @ dq # t)
         = (fin, True)"
  shows "parseLoop initial_state
           [stream_open, str ''Hel'', str ''lo, '',
            str ''c'' @ [243] @ str ''mo est'' @ [225] @ str ''s?'', dq # t] =
         [Delta (str ''Hel''), Delta (str ''lo, ''),
          Delta (str ''c'' @ [243] @ str ''mo est'' @ [225] @ str ''s?'')] @ fin"
proof -
  let ?c1 = "str ''Hel''" and ?c2 = "str ''lo, ''"
  let ?c3 = "str ''c'' @ [243] @ str ''mo est'' @ [225] @ str ''s?''"
  let ?B = "str ''Hello, c'' @ [243] @ str ''mo est'' @ [225] @ str ''s?''"
  let ?st = "\<lambda>B. \<lparr> fullStreamContent = stream_open @ B, isInsideResponseValue = True,
                   responseValueStartIndex = 14, responseValueSentSoFar = B \<rparr>"
  have B1: "[] @ ?c1 = ?c1" and B2: "?c1 @ ?c2 = str ''Hello, ''" and B3: "str ''Hello, '' @ ?c3 = ?B"
    by (simp_all add: str_def)
  have s0: "consume initial_state stream_open = (?st [], [], False)"
    using open_value_first [of "[]"] by simp
  have s1: "consume (?st []) ?c1 = (?st ?c1, [Delta ?c1], False)"
    using open_value_step [of "[]" ?c1] by (simp add: str_def)
  have s2: "consume (?st ?c1) ?c2 = (?st (str ''Hello, ''), [Delta ?c2], False)"
    using open_value_step [of ?c1 ?c2] unfolding B2 by (simp add: str_def)
  have s3: "consume (?st (str ''Hello, '')) ?c3 = (?st ?B, [Delta ?c3], False)"
    using open_value_step [of "str ''Hello, ''" ?c3] unfolding B3 by (simp add: str_def)
  have s4: "consume (?st ?B) (dq # t) =
      (\<lparr> fullStreamContent = stream_open @ ?B @ dq # t,
         isInsideResponseValue = False,
         responseValueStartIndex = 15 + int (length ?B),
         responseValueSentSoFar = ?B \<rparr>, fin, True)"
    using closing_step [of ?B t] assms by (simp add: str_def)
  have p4: "parseLoop (?st ?B) [dq # t] = fin"
    by (subst parseLoop.simps) (simp only: s4 prod.case if_True)
  have p3: "parseLoop (?st (str ''Hello, '')) [?c3, dq # t] = Delta ?c3 # fin"
    by (subst parseLoop.simps) (simp only: s3 prod.case if_False p4, simp)
  have p2: "parseLoop (?st ?c1) [?c2, ?c3, dq # t] = Delta ?c2 # Delta ?c3 # fin"
    by (subst parseLoop.simps) (simp only: s2 prod.case if_False p3, simp)
  have p1: "parseLoop (?st []) [?c1, ?c2, ?c3, dq # t] = Delta ?c1 # Delta ?c2 # Delta ?c3 # fin"
    by (subst parseLoop.simps) (simp only: s1 prod.case if_False p2, simp)
  have "parseLoop initial_state [stream_open, ?c1, ?c2, ?c3, dq # t] =
          Delta ?c1 # Delta ?c2 # Delta ?c3 # fin"
    by (subst parseLoop.simps) (simp only: s0 prod.case if_False p1, simp)
  then show ?thesis by simp
qed

lemma scenario_encoder_run:
  "processStream (Some (session_continue_writes
     [str ''Hel'', str ''lo, '', str ''c'' @ [243] @ str ''mo est'' @ [225] @ str ''s?''] Done)) =
   [StreamStart, Delta (str ''Hel''), Delta (str ''lo, ''),
    Delta (str ''c'' @ [243] @ str ''mo est'' @ [225] @ str ''s?''),
    Complete (wire_object (str ''Hello, c'' @ [243] @ str ''mo est'' @ [225] @ str ''s?''))]"
proof -
  let ?B = "str ''Hello, c'' @ [243] @ str ''mo est'' @ [225] @ str ''s?''"
  have e: "escapedContent ?B = ?B"
    by (rule escapedContent_plain) (simp add: str_def)
  have safe: "\<forall>c \<in> set ?B. json_safe c" by (simp add: str_def json_safe_def)
  have "completion_check (stream_open @ escapedContent ?B @ stream_close) =
          ([Complete (wire_object ?B)], True)"
    using wire_looks_complete [of ?B] parse_and_check_wire [OF safe]
    by (simp add: completion_check_def)
  then have cc: "completion_check (stream_open @ ?B @ dq # stream_tail) =
          ([Complete (wire_object ?B)], True)"
    unfolding e stream_close_tail .
  show ?thesis
    unfolding scenario_writes stream_close_tail processStream_def
    using scenario_deltas [OF cc] by simp
qed

lemma scenario_hola_check:
  \<open>completion_check
     (stream_open @ (str ''Hello, c'' @ [243] @ str ''mo est'' @ [225] @ str ''s?'') @ dq #
      str '', "currentCategory": null, "currentWord": "hola", "currentWordProgress": "pronunciation", "exercises": null}'') =
   ([Complete (JObject
       [(str ''response'', JString (str ''Hello, c'' @ [243] @ str ''mo est'' @ [225] @ str ''s?'')),
        (str ''currentCategory'', JNull), (str ''currentWord'', JString (str ''hola'')),
        (str ''currentWordProgress'', JString (str ''pronunciation'')),
        (str ''exercises'', JNull)])], True)\<close>
proof -
  let ?X = \<open>stream_open @ (str ''Hello, c'' @ [243] @ str ''mo est'' @ [225] @ str ''s?'') @ dq #
      str '', "currentCategory": null, "currentWord": "hola", "currentWordProgress": "pronunciation", "exercises": null}''\<close>
  have lc: "looks_complete ?X"
    by (simp add: looks_complete_def completion_scan_def completion_step_def stream_open_eq str_def)
  have p: "parse_and_check ?X = Some (JObject
       [(str ''response'', JString (str ''Hello, c'' @ [243] @ str ''mo est'' @ [225] @ str ''s?'')),
        (str ''currentCategory'', JNull), (str ''currentWord'', JString (str ''hola'')),
        (str ''currentWordProgress'', JString (str ''pronunciation'')),
        (str ''exercises'', JNull)])"
    by (simp add: parse_and_check_def json_parse_def stream_open_eq str_def skip_ws_def
          is_json_ws_def parse_literal_def)
  show ?thesis using lc p by (simp add: completion_check_def)
qed

section \<open>Reassembly of the response\<close>




section \<open>Escaped quotes in the value scan\<close>



section \<open>The length ceiling\<close>

text \<open>
  C3 (the code at an oversized stream).  The ceiling is only looked at when a parse
  attempt fails, and a parse is only attempted when the completion check finds balanced
  braces outside a string.  While the value is open the scan is inside a string, so the
  check never passes.  The chunks \<^verbatim>\<open>{"response": "\<close> with 49000 letters \<open>a\<close> and then
  2000 more letters \<open>a\<close> take the buffer past 50000 characters in the second iteration;
  the decoder emits two deltas, no \<open>ExceededMaxLength\<close>, and at the end of the stream
  \<open>UnterminatedValue\<close>.
\<close>

theorem oversized_open_value:
  "max_length < length (concat [stream_open @ replicate 49000 97, replicate 2000 97])
   \<and> processStream (Some [stream_open @ replicate 49000 97, replicate 2000 97]) =
       [StreamStart, Delta (replicate 49000 97), Delta (replicate 2000 97),
        Error UnterminatedValue]"
proof -
  have q1: "dq \<notin> set (replicate 49000 (97::nat))"
    and q2: "dq \<notin> set (concat [replicate 2000 (97::nat)])" by simp_all
  have "parseLoop initial_state [stream_open @ replicate 49000 97, replicate 2000 97] =
          [Delta (replicate 49000 97), Delta (replicate 2000 97), Error UnterminatedValue]"
    using open_value_run [OF q1 q2] by (simp add: open_value_first [OF q1])
  then show ?thesis
    by (simp add: processStream_def max_length_def length_stream_open)
qed

section \<open>End of stream before the value is closed\<close>

text \<open>
  C4 (as the code has it).  The decoder reports \<open>UnterminatedValue\<close> when the stream
  ends while it is inside the value: the marker was found and the closing quote was not.
  Then the events are the start notification, deltas, and exactly that one error; there is
  no complete event.  When the stream ends and the marker was never found, the decoder
  does not report \<open>UnterminatedValue\<close>: it reports \<open>NoContent\<close> if the buffer trims to
  nothing, and otherwise parses the buffer, which gives a complete event or
  \<open>InvalidFinalJson\<close>.
\<close>

theorem end_of_stream_outcome:
  assumes "never_stops initial_state chunks"
  shows "(isInsideResponseValue (consume_all initial_state chunks) \<longrightarrow>
            (\<exists>ds. processStream (Some chunks) =
                    StreamStart # map Delta ds @ [Error UnterminatedValue]))
       \<and> (\<not> isInsideResponseValue (consume_all initial_state chunks) \<and>
          responseValueStartIndex (consume_all initial_state chunks) = -1 \<longrightarrow>
            processStream (Some chunks) =
              StreamStart #
                (if trim (concat chunks) = [] then [Error NoContent]
                 else case parse_and_check (concat chunks) of
                        Some v \<Rightarrow> [Complete v]
                      | None \<Rightarrow> [Error InvalidFinalJson]))"
proof (intro conjI impI)
  assume ins: "isInsideResponseValue (consume_all initial_state chunks)"
  from parseLoop_reaches_done [OF assms] obtain ds where
    "parseLoop initial_state chunks = map Delta ds @ on_done (consume_all initial_state chunks)"
    by blast
  with ins show "\<exists>ds. processStream (Some chunks) =
                    StreamStart # map Delta ds @ [Error UnterminatedValue]"
    by (auto simp: processStream_def on_done_def)
next
  assume "\<not> isInsideResponseValue (consume_all initial_state chunks) \<and>
          responseValueStartIndex (consume_all initial_state chunks) = -1"
  then have out: "\<not> isInsideResponseValue (consume_all initial_state chunks)"
    and neg: "responseValueStartIndex (consume_all initial_state chunks) < 0" by simp_all
  have "parseLoop initial_state chunks = on_done (consume_all initial_state chunks)"
    using parseLoop_still_seeking [OF assms _ neg] by (simp add: initial_state_def)
  moreover have "fullStreamContent (consume_all initial_state chunks) = concat chunks"
    by (simp add: initial_state_def)
  ultimately show "processStream (Some chunks) =
              StreamStart #
                (if trim (concat chunks) = [] then [Error NoContent]
                 else case parse_and_check (concat chunks) of
                        Some v \<Rightarrow> [Complete v]
                      | None \<Rightarrow> [Error InvalidFinalJson])"
    using out by (simp add: processStream_def on_done_def)
qed

theorem end_of_stream_outcome_witness:
  \<open>never_stops initial_state [str ''{"response": "partial'']
   \<and> isInsideResponseValue (consume_all initial_state [str ''{"response": "partial''])
   \<and> (\<exists>ds. processStream (Some [str ''{"response": "partial'']) =
             StreamStart # map Delta ds @ [Error UnterminatedValue])\<close>
proof -
  let ?c = \<open>str ''{"response": "partial''\<close>
  have k: "key_search initial_state (fullStreamContent initial_state @ ?c) = Some 14"
  proof -
    have "indexOf ?c marker 0 = 1" by (simp add: scan_eval)
    then show ?thesis by (simp add: key_search_def length_marker)
  qed
  have f: "findEndQuote ?c 14 14 = None" by (simp add: scan_eval findEndQuote_start)
  have cc: "completion_check ?c = ([], False)" by (simp add: scan_eval)
  have "isInsideResponseValue initial_state \<longrightarrow> 0 \<le> responseValueStartIndex initial_state"
    by simp
  note ck = consume_key [OF k this]
  have step: "\<not> snd (snd (consume initial_state ?c))
              \<and> isInsideResponseValue (fst (consume initial_state ?c))"
    using f cc unfolding ck by (simp add: Let_def)
  have h: "never_stops initial_state [?c]"
    using step by (simp add: case_prod_beta)
  have i: "isInsideResponseValue (consume_all initial_state [?c])"
    using step by simp
  show ?thesis using h i end_of_stream_outcome [OF h] by blast
qed

theorem end_of_stream_unterminated_counterexample:
  "never_stops initial_state [str ''true'']
   \<and> \<not> isInsideResponseValue (consume_all initial_state [str ''true''])
   \<and> responseValueStartIndex (consume_all initial_state [str ''true'']) = -1
   \<and> processStream (Some [str ''true'']) = [StreamStart, Complete (JBool True)]"
proof -
  let ?c = "str ''true''"
  have k: "key_search initial_state (fullStreamContent initial_state @ ?c) = None"
  proof -
    have "indexOf ?c marker 0 = -1" by (simp add: scan_eval)
    then show ?thesis by (simp add: key_search_def)
  qed
  have cc: "completion_check ?c = ([], False)" by (simp add: scan_eval)
  have p: "parse_and_check ?c = Some (JBool True)" by (simp add: json_eval)
  have t: "trim ?c \<noteq> []" by (simp add: trim_def str_def is_js_space_def)
  have step: "consume initial_state ?c = (initial_state\<lparr>fullStreamContent := ?c\<rparr>, [], False)"
    using cc unfolding consume_no_key [OF k] by simp
  show ?thesis
    using p t by (simp add: step processStream_def on_done_def)
qed

section \<open>The encoder's output\<close>




section \<open>One chunk or many\<close>

lemma final_object_on_done:
  "final_object (on_done st) = Some obj \<longleftrightarrow> on_done st = [Complete obj]"
  by (auto simp: on_done_def split: option.splits)

lemma final_object_completion_check:
  "final_object (fst (completion_check buf)) = Some obj \<longleftrightarrow>
     completion_check buf = ([Complete obj], True)"
  using completion_check_events [of buf] by auto

lemma completion_check_Complete:
  "completion_check buf = ([Complete obj], True) \<longleftrightarrow>
     looks_complete buf \<and> parse_and_check buf = Some obj"
  by (auto simp: completion_check_def split: option.splits if_splits)

lemma completion_check_Error:
  "completion_check buf = ([Error e], True) \<Longrightarrow>
     looks_complete buf \<and> parse_and_check buf = None \<and> max_length < length buf"
  by (auto simp: completion_check_def split: option.splits if_splits)

lemma consume_stream_events:
  assumes "consume st c = (st', evs, stop)"
  shows "\<exists>ds. evs = map Delta ds @ fst (completion_check (fullStreamContent st @ c))"
    and "stop = snd (completion_check (fullStreamContent st @ c))"
    and "fullStreamContent st' = fullStreamContent st @ c"
proof -
  let ?st1 = "find_key (st\<lparr>fullStreamContent := fullStreamContent st @ c\<rparr>)"
  obtain ds where "snd (stream_value ?st1) = map Delta ds"
    using stream_value_events [of ?st1] by (metis list.simps(8,9))
  then show "\<exists>ds. evs = map Delta ds @ fst (completion_check (fullStreamContent st @ c))"
    using assms by (auto simp: consume_alt Let_def)
  show "stop = snd (completion_check (fullStreamContent st @ c))"
    using assms by (auto simp: consume_alt Let_def)
  show "fullStreamContent st' = fullStreamContent st @ c"
    using consume_buffer [of st c] assms by simp
qed

lemma one_chunk_accepted:
  assumes "final_object (processStream (Some [S])) = Some obj"
  shows "parse_and_check S = Some obj"
    and "\<not> looks_complete S \<Longrightarrow> on_done (fst (consume initial_state S)) = [Complete obj]"
proof -
  obtain st1 evs stop where c: "consume initial_state S = (st1, evs, stop)"
    by (cases "consume initial_state S") auto
  from consume_stream_events [OF c] obtain ds where
    evs: "evs = map Delta ds @ fst (completion_check S)"
    and stop: "stop = snd (completion_check S)"
    and b: "fullStreamContent st1 = S" by auto
  have run: "final_object (if stop then evs else evs @ on_done st1) = Some obj"
    using assms by (auto simp: processStream_def c split: if_splits)
  show "parse_and_check S = Some obj"
  proof (cases stop)
    case True
    then have "final_object (fst (completion_check S)) = Some obj"
      using run evs by simp
    then show ?thesis
      by (simp add: final_object_completion_check completion_check_Complete)
  next
    case False
    then have "completion_check S = ([], False)"
      using stop completion_check_continue by simp
    then have "final_object (on_done st1) = Some obj"
      using run evs False by simp
    then show ?thesis
      using b by (auto simp: on_done_def split: if_splits option.splits)
  qed
  show "on_done (fst (consume initial_state S)) = [Complete obj]" if "\<not> looks_complete S"
  proof -
    have "completion_check S = ([], False)" using that by (rule completion_check_incomplete)
    then have "final_object (on_done st1) = Some obj"
      using run evs stop by simp
    then show ?thesis by (simp add: final_object_on_done c)
  qed
qed

lemma run_stops_right:
  assumes "parse_and_check S = Some obj"
    and "\<forall>n < length S. looks_complete (take n S) \<and> parse_and_check (take n S) = None
           \<longrightarrow> n \<le> max_length"
    and "fullStreamContent st @ concat cs = S"
    and "length (fullStreamContent st) < length S \<or> \<not> looks_complete S"
  shows "\<exists>ds. parseLoop st cs = map Delta ds @ [Complete obj]
            \<or> (\<not> looks_complete S \<and>
               parseLoop st cs = map Delta ds @ on_done (consume_all st cs))"
  using assms(3,4)
proof (induction cs arbitrary: st)
  case Nil
  then have "\<not> looks_complete S" by auto
  then show ?case by (intro exI [of _ "[]"]) simp
next
  case (Cons c cs)
  let ?B = "fullStreamContent st @ c"
  obtain st' evs stop where step: "consume st c = (st', evs, stop)"
    by (cases "consume st c") auto
  from consume_stream_events [OF step] obtain ds0 where
    evs: "evs = map Delta ds0 @ fst (completion_check ?B)"
    and stop: "stop = snd (completion_check ?B)"
    and buf: "fullStreamContent st' = ?B" by auto
  have st': "fst (consume st c) = st'" using step by simp
  have S: "S = ?B @ concat cs" using Cons.prems(1) by simp
  then have tk: "take (length ?B) S = ?B" by simp
  consider (cont) "completion_check ?B = ([], False)"
    | (fin) v where "completion_check ?B = ([Complete v], True)"
    | (err) "completion_check ?B = ([Error ExceededMaxLength], True)"
    using completion_check_events [of ?B] by blast
  then show ?case
  proof cases
    case cont
    have b': "fullStreamContent st' @ concat cs = S" using S buf by simp
    have "length (fullStreamContent st') < length S \<or> \<not> looks_complete S"
    proof (cases "concat cs = []")
      case True
      then have "?B = S" using S by simp
      then have "\<not> looks_complete S"
        using cont assms(1) by (auto simp: completion_check_def)
      then show ?thesis by simp
    next
      case False
      then show ?thesis using S buf by simp
    qed
    from Cons.IH [OF b' this] obtain ds where
      "parseLoop st' cs = map Delta ds @ [Complete obj]
       \<or> (\<not> looks_complete S \<and>
          parseLoop st' cs = map Delta ds @ on_done (consume_all st' cs))" by blast
    then show ?thesis
      using evs stop cont by (intro exI [of _ "ds0 @ ds"]) (auto simp: step st')
  next
    case fin
    then have lc: "looks_complete ?B" and pv: "parse_and_check ?B = Some v"
      by (simp_all add: completion_check_Complete)
    have "lbrace \<in> set ?B" using lc looks_complete_needs_braces by blast
    then have "v = obj"
      using parse_and_check_prefix [OF pv _, of "concat cs" obj] assms(1) S by simp
    then show ?thesis
      using evs stop fin by (intro exI [of _ ds0]) (simp add: step)
  next
    case err
    from completion_check_Error [OF this] have
      e: "looks_complete ?B" "parse_and_check ?B = None" "max_length < length ?B" by simp_all
    have "length ?B < length S"
    proof (rule ccontr)
      assume "\<not> length ?B < length S"
      then have "?B = S" using S by simp
      with e(2) assms(1) show False by simp
    qed
    then have "length ?B \<le> max_length" using assms(2) e(1,2) tk by metis
    with e(3) show ?thesis by simp
  qed
qed

lemma chunked_run_object:
  assumes "final_object (processStream (Some [S])) = Some obj"
    and "\<forall>n < length S. looks_complete (take n S) \<and> parse_and_check (take n S) = None
           \<longrightarrow> n \<le> max_length"
    and "looks_complete S \<or> single_marker S"
    and "concat chunks = S"
  shows "final_object (processStream (Some chunks)) = Some obj"
proof -
  note p = one_chunk_accepted(1) [OF assms(1)]
  have ne: "S \<noteq> []"
  proof
    assume "S = []"
    then have "parse_and_check S = None"
      by (simp add: parse_and_check_def json_parse_def skip_ws_def)
    with p show False by simp
  qed
  have b: "fullStreamContent initial_state @ concat chunks = S" using assms(4) by simp
  have l: "length (fullStreamContent initial_state) < length S \<or> \<not> looks_complete S"
    using ne by simp
  from run_stops_right [OF p assms(2) b l] obtain ds where
    ds: "parseLoop initial_state chunks = map Delta ds @ [Complete obj]
         \<or> (\<not> looks_complete S \<and>
            parseLoop initial_state chunks =
              map Delta ds @ on_done (consume_all initial_state chunks))" by blast
  then show ?thesis
  proof
    assume "parseLoop initial_state chunks = map Delta ds @ [Complete obj]"
    then show ?thesis by (simp add: processStream_def)
  next
    assume a: "\<not> looks_complete S \<and>
            parseLoop initial_state chunks =
              map Delta ds @ on_done (consume_all initial_state chunks)"
    then have sm: "single_marker S" using assms(3) by simp
    have "consume_all initial_state chunks = view S"
      using consume_all_view [of chunks] sm assms(4) by simp
    moreover have "fst (consume initial_state S) = view S"
      using consume_all_view [of "[S]"] sm by simp
    ultimately have "on_done (consume_all initial_state chunks) = [Complete obj]"
      using one_chunk_accepted(2) [OF assms(1)] a by simp
    then show ?thesis using a by (simp add: processStream_def)
  qed
qed



lemma skip_ws_replicate: "skip_ws (replicate n 32 @ r) = skip_ws r"
  by (induction n) (simp_all add: skip_ws_def is_json_ws_def)

lemma array_text_parse:
  "json_parse (str ''[{}'' @ replicate n 32 @ str '']'') = Some (JArray [JObject []])"
proof -
  let ?S = "str ''[{}'' @ replicate n 32 @ str '']''"
  have three: "3 = Suc (Suc (Suc 0))" by simp
  have sw: "skip_ws (replicate n 32 @ [93]) = [93]"
    using skip_ws_replicate [of n "[93]"] by (simp add: skip_ws_def is_json_ws_def)
  have p: "parse_value 3 ?S = Some (JArray [JObject []], [])"
    unfolding three by (simp add: str_def skip_ws_def [of "_ # _"] is_json_ws_def sw)
  have "3 \<le> Suc (length ?S)" by (simp add: str_def)
  then obtain k where k: "Suc (length ?S) = 3 + k" using le_Suc_ex by blast
  have "parse_value (3 + k) ?S = Some (JArray [JObject []], [])"
    using parse_fuel_mono(1) [of 3 ?S _ k] p by blast
  then show ?thesis unfolding json_parse_def k by (simp add: skip_ws_def)
qed

lemma array_prefix_parse: "parse_value f (str ''[{}'' @ replicate n 32) = None"
proof -
  have sw: "skip_ws (replicate n 32) = []"
    using skip_ws_replicate [of n "[]"] by (simp add: skip_ws_def)
  show ?thesis
  proof (cases f)
    case 0
    then show ?thesis by simp
  next
    case (Suc f1)
    show ?thesis
    proof (cases f1)
      case 0
      then show ?thesis using Suc by (simp add: str_def skip_ws_def [of "_ # _"] is_json_ws_def)
    next
      case (Suc f2)
      show ?thesis
      proof (cases f2)
        case 0
        then show ?thesis
          using \<open>f = Suc f1\<close> \<open>f1 = Suc f2\<close>
          by (simp add: str_def skip_ws_def [of "_ # _"] is_json_ws_def)
      next
        case (Suc f3)
        then show ?thesis
          using \<open>f = Suc f1\<close> \<open>f1 = Suc f2\<close>
          by (simp add: str_def skip_ws_def [of "_ # _"] is_json_ws_def sw)
      qed
    qed
  qed
qed

lemma array_scan:
  "completion_scan (str ''[{}'' @ replicate n 32 @ r) =
     foldl completion_step (0, False, False) r"
proof -
  have "completion_scan (str ''[{}'') = (0, False, False)"
    by (simp add: completion_scan_def completion_step_def str_def)
  moreover have "foldl completion_step (0, False, False) (replicate n 32) = (0, False, False)"
    by (rule completion_scan_plain) simp
  ultimately show ?thesis
    using completion_scan_append [of "str ''[{}''" "replicate n 32 @ r"]
    by (simp add: completion_scan_def)
qed

lemma array_text_check:
  "completion_check (str ''[{}'' @ replicate n 32 @ str '']'') =
     ([Complete (JArray [JObject []])], True)"
proof -
  have "looks_complete (str ''[{}'' @ replicate n 32 @ str '']'')"
    unfolding looks_complete_def array_scan
    by (simp add: str_def completion_step_def)
  then show ?thesis
    by (simp add: completion_check_def parse_and_check_def array_text_parse)
qed

lemma array_prefix_check:
  assumes "max_length < 3 + n"
  shows "completion_check (str ''[{}'' @ replicate n 32) = ([Error ExceededMaxLength], True)"
proof -
  have "looks_complete (str ''[{}'' @ replicate n 32)"
    unfolding looks_complete_def using array_scan [of n "[]"]
    by (simp add: str_def)
  moreover have "length (str ''[{}'' @ replicate n 32) = 3 + n" by (simp add: str_def)
  ultimately show ?thesis
    using assms
    by (simp add: completion_check_def parse_and_check_def json_parse_def array_prefix_parse)
qed

lemma array_no_key:
  "key_search initial_state (fullStreamContent initial_state @ str ''[{}'' @ replicate n 32 @ r)
     = None" if "dq \<notin> set r"
proof -
  have "dq \<notin> set (str ''[{}'' @ replicate n 32 @ r)" using that by (simp add: str_def)
  then show ?thesis by (simp add: key_search_def indexOf_marker_absent)
qed


section \<open>The delivery cursor\<close>

text \<open>
  C7 (as the code has it).  The delivery cursor is the length of
  \<^verbatim>\<open>responseValueSentSoFar\<close>.
  \<^item> In every iteration, from every state, the cursor does not decrease.
  \<^item> An iteration emits a delta exactly when the cursor advances, and the delta is the
    slice of the tracked value from the old cursor to the new one: a delta starts where the
    previous one ended, and nothing is sent twice.
  \<^item> As long as the marker occurs once (the text after the closing quote of the first
    value does not contain it), the tracked value is the currently known field value, so
    the cursor is its length, and the deltas emitted so far, put together, are that value.
  With a second marker after the closing quote the decoder keeps the old cursor for the new
  value, and the cursor can exceed the length of the value it then knows.
\<close>

theorem delivery_cursor:
  "length (responseValueSentSoFar st) \<le> length (responseValueSentSoFar (fst (consume st c)))
   \<and> deltas_of (fst (snd (consume st c))) =
       (if length (responseValueSentSoFar st) < length (responseValueSentSoFar (fst (consume st c)))
        then [drop (length (responseValueSentSoFar st))
                (responseValueSentSoFar (fst (consume st c)))]
        else [])
   \<and> (single_marker (concat chunks) \<longrightarrow>
         responseValueSentSoFar (consume_all initial_state chunks) = known_value (concat chunks)
         \<and> concat (deltas_of (step_events initial_state chunks)) = known_value (concat chunks))"
  using consume_cursor_mono [of st c] consume_deltas [of st c]
    consume_all_view [of chunks] step_events_view [of chunks]
  by (simp add: view_sent)

theorem delivery_cursor_witness:
  \<open>single_marker (concat [str ''{"resp'', str ''onse": "a'' @ [bs], [dq] @ str ''b", "x": 1}''])
   \<and> responseValueSentSoFar
        (consume_all initial_state
           [str ''{"resp'', str ''onse": "a'' @ [bs], [dq] @ str ''b", "x": 1}'']) =
       [97, bs, dq, 98]
   \<and> concat (deltas_of (step_events initial_state
           [str ''{"resp'', str ''onse": "a'' @ [bs], [dq] @ str ''b", "x": 1}''])) =
       [97, bs, dq, 98]\<close>
proof -
  let ?cs = \<open>[str ''{"resp'', str ''onse": "a'' @ [bs], [dq] @ str ''b", "x": 1}'']\<close>
  have i: "indexOf (concat ?cs) marker 0 = 1" by (simp add: scan_eval)
  have f: "findEndQuote (concat ?cs) 14 14 = Some 18"
    by (simp add: scan_eval findEndQuote_start)
  have n: "indexOf (concat ?cs) marker 19 = -1" by (simp add: scan_eval)
  have sm: "single_marker (concat ?cs)"
    unfolding single_marker_def i using f n by (simp add: length_marker)
  have kv: "known_value (concat ?cs) = [97, bs, dq, 98]"
    unfolding known_value_def i current_value_def using f
    by (simp add: length_marker) (simp add: substring_def str_def)
  show ?thesis
    using sm kv delivery_cursor [of initial_state "[]" ?cs] by simp
qed

theorem delivery_cursor_counterexample:
  \<open>consume initial_state (str ''{"response": "hello", '') =
      (\<lparr> fullStreamContent = str ''{"response": "hello", '', isInsideResponseValue = False,
         responseValueStartIndex = 20, responseValueSentSoFar = str ''hello'' \<rparr>,
       [Delta (str ''hello'')], False)
   \<and> key_search
        \<lparr> fullStreamContent = str ''{"response": "hello", '', isInsideResponseValue = False,
          responseValueStartIndex = 20, responseValueSentSoFar = str ''hello'' \<rparr>
        (str ''{"response": "hello", '' @ str ''"response": "x'') = Some 35
   \<and> current_value (str ''{"response": "hello", '' @ str ''"response": "x'') 35 = str ''x''
   \<and> consume
        \<lparr> fullStreamContent = str ''{"response": "hello", '', isInsideResponseValue = False,
          responseValueStartIndex = 20, responseValueSentSoFar = str ''hello'' \<rparr>
        (str ''"response": "x'') =
      (\<lparr> fullStreamContent = str ''{"response": "hello", '' @ str ''"response": "x'',
         isInsideResponseValue = True,
         responseValueStartIndex = 35, responseValueSentSoFar = str ''hello'' \<rparr>,
       [], False)\<close>
proof -
  let ?c1 = \<open>str ''{"response": "hello", ''\<close>
  let ?c2 = \<open>str ''"response": "x''\<close>
  let ?st1 = "\<lparr> fullStreamContent = ?c1, isInsideResponseValue = False,
        responseValueStartIndex = 20, responseValueSentSoFar = str ''hello'' \<rparr>"
  have k: "key_search initial_state (fullStreamContent initial_state @ ?c1) = Some 14"
    by (simp add: key_search_def scan_eval)
  have i: "isInsideResponseValue initial_state \<longrightarrow> 0 \<le> responseValueStartIndex initial_state"
    by simp
  have s1: "consume initial_state ?c1 = (?st1, [Delta (str ''hello'')], False)"
    unfolding consume_key [OF k i]
    by (simp add: Let_def current_value_def substring_def findEndQuote_start scan_eval)
  have k2: "key_search ?st1 (?c1 @ ?c2) = Some 35"
    by (simp add: key_search_def scan_eval)
  then have k2': "key_search ?st1 (fullStreamContent ?st1 @ ?c2) = Some 35" by simp
  have i2: "isInsideResponseValue ?st1 \<longrightarrow> 0 \<le> responseValueStartIndex ?st1"
    by simp
  have cv: "current_value (?c1 @ ?c2) 35 = str ''x''"
    by (simp add: current_value_def findEndQuote_start str_def)
  have s2: "consume ?st1 ?c2 =
      (\<lparr> fullStreamContent = ?c1 @ ?c2, isInsideResponseValue = True,
         responseValueStartIndex = 35, responseValueSentSoFar = str ''hello'' \<rparr>, [], False)"
    unfolding consume_key [OF k2' i2]
    by (simp add: Let_def current_value_def findEndQuote_start scan_eval)
  show ?thesis using s1 k2 cv s2 by simp
qed

section \<open>No delta after the closing quote\<close>

text \<open>
  C8 (as the code has it).  After the closing quote the decoder looks for the marker
  again, from the position after that quote on.  Once the value is closed, no later
  iteration emits a delta, and neither does the end of the stream, as long as the text
  that follows the closing quote does not contain the marker \<^verbatim>\<open>"response": "\<close>.
\<close>

theorem closed_value_no_delta:
  assumes "\<not> isInsideResponseValue st" and "0 \<le> responseValueStartIndex st"
    and "indexOf (fullStreamContent st @ concat chunks) marker
           (nat (responseValueStartIndex st)) = -1"
  shows "deltas_of (parseLoop st chunks) = []"
  using assms by (rule parseLoop_closed)

theorem closed_value_no_delta_witness:
  \<open>fst (consume initial_state (str ''{"response": "hi", '')) =
      \<lparr> fullStreamContent = str ''{"response": "hi", '', isInsideResponseValue = False,
        responseValueStartIndex = 17, responseValueSentSoFar = str ''hi'' \<rparr>
   \<and> indexOf (str ''{"response": "hi", '' @ concat [str ''"currentWord": '', str ''null}''])
         marker (nat 17) = -1
   \<and> deltas_of (parseLoop
         \<lparr> fullStreamContent = str ''{"response": "hi", '', isInsideResponseValue = False,
           responseValueStartIndex = 17, responseValueSentSoFar = str ''hi'' \<rparr>
         [str ''"currentWord": '', str ''null}'']) = []\<close>
proof -
  let ?c1 = \<open>str ''{"response": "hi", ''\<close>
  let ?st1 = "\<lparr> fullStreamContent = ?c1, isInsideResponseValue = False,
        responseValueStartIndex = 17, responseValueSentSoFar = str ''hi'' \<rparr>"
  let ?cs = \<open>[str ''"currentWord": '', str ''null}'']\<close>
  have k: "key_search initial_state (fullStreamContent initial_state @ ?c1) = Some 14"
    by (simp add: key_search_def scan_eval)
  have i: "isInsideResponseValue initial_state \<longrightarrow> 0 \<le> responseValueStartIndex initial_state"
    by simp
  have s1: "fst (consume initial_state ?c1) = ?st1"
    unfolding consume_key [OF k i]
    by (simp add: Let_def current_value_def substring_def findEndQuote_start scan_eval)
  have a: "\<not> isInsideResponseValue ?st1" and b: "0 \<le> responseValueStartIndex ?st1" by simp_all
  have c: "indexOf (fullStreamContent ?st1 @ concat ?cs) marker
             (nat (responseValueStartIndex ?st1)) = -1"
    by (simp add: scan_eval)
  show ?thesis
    using s1 c closed_value_no_delta [OF a b c] by simp
qed

theorem closed_value_delta_counterexample:
  \<open>consume initial_state (str ''{"response": "hi", "currentWord": "say '') =
      (\<lparr> fullStreamContent = str ''{"response": "hi", "currentWord": "say '',
         isInsideResponseValue = False,
         responseValueStartIndex = 17, responseValueSentSoFar = str ''hi'' \<rparr>,
       [Delta (str ''hi'')], False)
   \<and> snd (consume
         \<lparr> fullStreamContent = str ''{"response": "hi", "currentWord": "say '',
           isInsideResponseValue = False,
           responseValueStartIndex = 17, responseValueSentSoFar = str ''hi'' \<rparr>
         (str ''"response": "there"}'')) =
      ([Delta (str ''ere'')], False)\<close>
proof -
  let ?c1 = \<open>str ''{"response": "hi", "currentWord": "say ''\<close>
  let ?c2 = \<open>str ''"response": "there"}''\<close>
  let ?st1 = "\<lparr> fullStreamContent = ?c1, isInsideResponseValue = False,
        responseValueStartIndex = 17, responseValueSentSoFar = str ''hi'' \<rparr>"
  have k: "key_search initial_state (fullStreamContent initial_state @ ?c1) = Some 14"
    by (simp add: key_search_def scan_eval)
  have i: "isInsideResponseValue initial_state \<longrightarrow> 0 \<le> responseValueStartIndex initial_state"
    by simp
  have s1: "consume initial_state ?c1 = (?st1, [Delta (str ''hi'')], False)"
    unfolding consume_key [OF k i]
    by (simp add: Let_def current_value_def substring_def findEndQuote_start scan_eval)
  have k2: "key_search ?st1 (fullStreamContent ?st1 @ ?c2) = Some 52"
    by (simp add: key_search_def scan_eval)
  have i2: "isInsideResponseValue ?st1 \<longrightarrow> 0 \<le> responseValueStartIndex ?st1"
    by simp
  have s2: "snd (consume ?st1 ?c2) = ([Delta (str ''ere'')], False)"
    unfolding consume_key [OF k2 i2]
    by (simp add: Let_def current_value_def substring_def findEndQuote_start scan_eval)
  show ?thesis using s1 s2 by simp
qed

section \<open>The scenario, end to end\<close>

text \<open>
  C9 (as the code has it).  The handler has no input for the word context: it always
  writes \<^verbatim>\<open>null\<close> for \<open>currentCategory\<close>, \<open>currentWord\<close>, \<open>currentWordProgress\<close> and
  \<open>exercises\<close>.  Take the fragments \<^verbatim>\<open>Hel\<close>, \<^verbatim>\<open>lo, \<close> and the Spanish "como estas?"
  (written with o acute and a acute, the code units 243 and 225), followed by the done
  signal, with each write delivered as one chunk.  The decoder emits the three fragments as
  deltas, in order, and then one complete event whose object has the response
  "Hello, como estas?" and \<^verbatim>\<open>null\<close> in the four other fields.  Fed the wire text that
  carries \<open>currentWord\<close> \<^verbatim>\<open>hola\<close> and \<open>currentWordProgress\<close> \<^verbatim>\<open>pronunciation\<close>, cut at the
  same places, the decoder emits the same deltas and the complete event with those two
  values.
\<close>

theorem end_to_end_scenario:
  \<open>processStream (Some (session_continue_writes
     [str ''Hel'', str ''lo, '', str ''c'' @ [243] @ str ''mo est'' @ [225] @ str ''s?''] Done)) =
   [StreamStart, Delta (str ''Hel''), Delta (str ''lo, ''),
    Delta (str ''c'' @ [243] @ str ''mo est'' @ [225] @ str ''s?''),
    Complete (JObject
       [(str ''response'', JString (str ''Hello, c'' @ [243] @ str ''mo est'' @ [225] @ str ''s?'')),
        (str ''currentCategory'', JNull), (str ''currentWord'', JNull),
        (str ''currentWordProgress'', JNull), (str ''exercises'', JNull)])]
   \<and> processStream (Some
       [stream_open, str ''Hel'', str ''lo, '',
        str ''c'' @ [243] @ str ''mo est'' @ [225] @ str ''s?'',
        dq # str '', "currentCategory": null, "currentWord": "hola", "currentWordProgress": "pronunciation", "exercises": null}'']) =
   [StreamStart, Delta (str ''Hel''), Delta (str ''lo, ''),
    Delta (str ''c'' @ [243] @ str ''mo est'' @ [225] @ str ''s?''),
    Complete (JObject
       [(str ''response'', JString (str ''Hello, c'' @ [243] @ str ''mo est'' @ [225] @ str ''s?'')),
        (str ''currentCategory'', JNull), (str ''currentWord'', JString (str ''hola'')),
        (str ''currentWordProgress'', JString (str ''pronunciation'')),
        (str ''exercises'', JNull)])]\<close>
  using scenario_encoder_run scenario_deltas [OF scenario_hola_check]
  by (simp add: wire_object_def processStream_def)

theorem end_to_end_scenario_counterexample:
  \<open>processStream (Some (session_continue_writes
     [str ''Hel'', str ''lo, '', str ''c'' @ [243] @ str ''mo est'' @ [225] @ str ''s?''] Done)) \<noteq>
   [StreamStart, Delta (str ''Hel''), Delta (str ''lo, ''),
    Delta (str ''c'' @ [243] @ str ''mo est'' @ [225] @ str ''s?''),
    Complete (JObject
       [(str ''response'', JString (str ''Hello, c'' @ [243] @ str ''mo est'' @ [225] @ str ''s?'')),
        (str ''currentCategory'', JNull), (str ''currentWord'', JString (str ''hola'')),
        (str ''currentWordProgress'', JString (str ''pronunciation'')),
        (str ''exercises'', JNull)])]\<close>
  unfolding scenario_encoder_run by (simp add: wire_object_def)

section \<open>End of stream without content\<close>

text \<open>
  C10.  When the stream ends and all the chunks received, put together, trim to the empty
  string, the decoder reports exactly one error, \<open>NoContent\<close> ("Stream ended with no
  content."), after the start notification: there is no delta and no complete event.
\<close>

theorem no_content_error:
  "trim (concat chunks) = [] \<Longrightarrow> processStream (Some chunks) = [StreamStart, Error NoContent]"
  using parseLoop_blank [of initial_state chunks]
  by (simp add: processStream_def trim_Nil_iff initial_state_def)

theorem no_content_error_witness:
  "trim (concat [[32, 10], [9]]) = [] \<and> processStream (Some [[32, 10], [9]]) = [StreamStart, Error NoContent]"
proof -
  have h: "trim (concat [[32, 10], [9::nat]]) = []" by (simp add: trim_def is_js_space_def)
  show ?thesis using h no_content_error [OF h] by simp
qed

end
